theory Spec2Isabelle
  imports Main
begin

section \<open>Orpheus: data model (orpheus-core/src/types.ts)\<close>

text \<open>
  The string unions of \<^verbatim>\<open>types.ts\<close> are datatypes, its interfaces are records, an
  optional field \<^verbatim>\<open>f?: T\<close> is a \<open>T option\<close> (\<open>None\<close> is \<^verbatim>\<open>undefined\<close>). JavaScript
  numbers that the dispatcher only counts with or compares are \<open>int\<close>; a \<^verbatim>\<open>Date\<close> is
  its time value, an \<open>int\<close>. Field names are the source's, except \<^verbatim>\<open>id\<close> and
  \<^verbatim>\<open>type\<close>, which are taken in HOL.
\<close>

datatype ExecutorType = codex | sonnet | gemini

datatype TaskStatus = Pending | Running | Completed | Failed

datatype TaskPriority = Low | Normal | High | Critical

record Usage =
  promptTokens :: int
  completionTokens :: int
  totalTokens :: int

record ExecutorResult =
  executor :: ExecutorType
  success :: bool
  content :: string
  usage :: "Usage option"
  error :: "string option"
  durationMs :: int

record Task =
  task_id :: string
  prompt :: string
  systemPrompt :: "string option"
  preferredExecutor :: "ExecutorType option"
  fallbackExecutors :: "ExecutorType list option"
  priority :: TaskPriority
  status :: TaskStatus
  parentId :: "string option"
  metadata :: "(string \<times> string) list option"
  createdAt :: int
  updatedAt :: int

record PlannerConfig =
  maxSubtasks :: int
  defaultExecutor :: ExecutorType
  parallelExecution :: bool

datatype LogLevel = Debug | Info | Warn | Error

record OrpheusConfig =
  openaiApiKey :: "string option"
  anthropicApiKey :: "string option"
  googleApiKey :: "string option"
  memoryPath :: string
  logLevel :: LogLevel
  planner :: PlannerConfig

section \<open>Orpheus.getConfig (orpheus-core/src/index.ts)\<close>

text \<open>
  \<^verbatim>\<open>this.config.openaiApiKey ? '[REDACTED]' : undefined\<close> tests the key for
  truthiness: of the values of \<^verbatim>\<open>string | undefined\<close>, \<^verbatim>\<open>undefined\<close> and the empty
  string are falsy.
\<close>

definition truthy :: "string option \<Rightarrow> bool" where
  "truthy v = (case v of None \<Rightarrow> False | Some k \<Rightarrow> k \<noteq> [])"

definition redact :: "string option \<Rightarrow> string option" where
  "redact v = (if truthy v then Some ''[REDACTED]'' else None)"

definition getConfig :: "OrpheusConfig \<Rightarrow> OrpheusConfig" where
  "getConfig c = c\<lparr>openaiApiKey := redact (openaiApiKey c),
                    anthropicApiKey := redact (anthropicApiKey c),
                    googleApiKey := redact (googleApiKey c)\<rparr>"

text \<open>
  Two configurations that differ at most in the values of their API keys, each key being
  present in both or absent in both.
\<close>

definition same_but_key_values :: "OrpheusConfig \<Rightarrow> OrpheusConfig \<Rightarrow> bool" where
  "same_but_key_values c1 c2 \<longleftrightarrow>
     memoryPath c1 = memoryPath c2 \<and> logLevel c1 = logLevel c2 \<and> planner c1 = planner c2 \<and>
     (openaiApiKey c1 = None) = (openaiApiKey c2 = None) \<and>
     (anthropicApiKey c1 = None) = (anthropicApiKey c2 = None) \<and>
     (googleApiKey c1 = None) = (googleApiKey c2 = None)"

text \<open>The same, with "present" read as the code tests it: present and not empty.\<close>

definition same_but_nonempty_key_values :: "OrpheusConfig \<Rightarrow> OrpheusConfig \<Rightarrow> bool" where
  "same_but_nonempty_key_values c1 c2 \<longleftrightarrow>
     memoryPath c1 = memoryPath c2 \<and> logLevel c1 = logLevel c2 \<and> planner c1 = planner c2 \<and>
     truthy (openaiApiKey c1) = truthy (openaiApiKey c2) \<and>
     truthy (anthropicApiKey c1) = truthy (anthropicApiKey c2) \<and>
     truthy (googleApiKey c1) = truthy (googleApiKey c2)"

definition defaultPlanner :: PlannerConfig where
  "defaultPlanner = \<lparr>maxSubtasks = 10, defaultExecutor = sonnet, parallelExecution = False\<rparr>"

definition config_with_openai :: "string option \<Rightarrow> OrpheusConfig" where
  "config_with_openai k =
     \<lparr>openaiApiKey = k, anthropicApiKey = None, googleApiKey = None,
      memoryPath = ''./orpheus.db'', logLevel = Info, planner = defaultPlanner\<rparr>"

section \<open>Events, executors, the memory store (types.ts, memory/src/store.ts)\<close>

datatype EventType =
  task_created | task_started | task_completed | task_failed
  | executor_called | executor_responded | plan_created | system_error

text \<open>
  The payload of an event is a \<^verbatim>\<open>Record<string, unknown>\<close>; the dispatcher builds five
  shapes of it, one constructor each, with the fields in the source's order.
\<close>

datatype Payload =
  StartedPayload string
  | CalledPayload int
  | RespondedPayload bool int "Usage option"
  | CompletedPayload ExecutorType int
  | FailedPayload "string option" int

text \<open>\<^verbatim>\<open>Omit<MemoryEvent, 'id' | 'timestamp'>\<close>, the argument of logEvent.\<close>

record MemoryEvent =
  kind :: EventType
  taskId :: "string option"
  executorType :: "ExecutorType option"
  payload :: Payload

text \<open>
  Executors and the memory store are the dispatcher's environment. Their state (the
  providers, the database, the clock) is a value of a type \<open>'w\<close>, the world; a call takes
  the world and returns its outcome with the new world. For \<^verbatim>\<open>execute\<close> and
  \<^verbatim>\<open>logEvent\<close> a promise that rejects and a call that throws before it returns a
  promise come to the same for the dispatcher, which awaits the call at once: both are
  \<open>Inl msg\<close>, with \<open>msg\<close> the text the dispatcher reads off the thrown value
  (\<^verbatim>\<open>err instanceof Error ? err.message : String(err)\<close>). For \<^verbatim>\<open>isAvailable\<close>
  they differ, because the dispatcher attaches \<^verbatim>\<open>.catch\<close> to the promise the call
  returns: the promise is fulfilled with a boolean, or it is rejected, or the call throws
  and there is no promise. Every call settles. \<^verbatim>\<open>execute\<close> reads the task and does
  not write to it.
\<close>

datatype Availability = Resolves bool | Rejects string | Throws string

record 'w Executor =
  etype :: ExecutorType
  execute :: "Task \<Rightarrow> 'w \<Rightarrow> (string + ExecutorResult) \<times> 'w"
  isAvailable :: "'w \<Rightarrow> Availability \<times> 'w"

record 'w MemoryStore =
  logEvent :: "MemoryEvent \<Rightarrow> 'w \<Rightarrow> (string + string) \<times> 'w"

text \<open>The host: \<^verbatim>\<open>new Date()\<close> reads the clock, \<^verbatim>\<open>setTimeout\<close> lets time pass.\<close>

record 'w Host =
  now :: "'w \<Rightarrow> int"
  setTimeout :: "int \<Rightarrow> 'w \<Rightarrow> 'w"

section \<open>The dispatcher (orpheus-core/src/dispatcher.ts)\<close>

record DispatcherOptions =
  retryAttempts :: int
  retryDelayMs :: int

text \<open>
  \<^verbatim>\<open>executors\<close> is a JavaScript Map, which keeps its keys in insertion order: an
  association list, read with \<open>map_of\<close>, its keys \<open>map fst\<close>.
\<close>

record 'w Dispatcher =
  executors :: "(ExecutorType \<times> 'w Executor) list"
  memory :: "'w MemoryStore"
  options :: DispatcherOptions
  host :: "'w Host"

record DispatchResult =
  task :: Task
  result :: ExecutorResult
  attempts :: int

text \<open>
  What a dispatch does to the outside is recorded, in order, in a trace next to the
  world: the writes to the task's status, the events the store accepted or refused, the
  availability probes with the value the dispatcher took from them (or the message of a
  probe that threw), the calls of \<^verbatim>\<open>execute\<close> with the try number and the outcome,
  the console lines, the delays.
\<close>

datatype ConsoleLine =
  NotRegistered ExecutorType
  | NotAvailable ExecutorType
  | AttemptFailed int ExecutorType string

datatype Effect =
  StatusSet TaskStatus
  | Logged MemoryEvent
  | LogRejected MemoryEvent string
  | Probed ExecutorType bool
  | ProbeThrew ExecutorType string
  | Executed ExecutorType int "string + ExecutorResult"
  | Console ConsoleLine
  | Waited int

record 'w State =
  world :: 'w
  trace :: "Effect list"

definition emit :: "Effect \<Rightarrow> 'w State \<Rightarrow> 'w State" where
  "emit x s = s\<lparr>trace := trace s @ [x]\<rparr>"

text \<open>\<^verbatim>\<open>await this.memory.logEvent(e)\<close>\<close>

definition log_event ::
  "'w Dispatcher \<Rightarrow> MemoryEvent \<Rightarrow> 'w State \<Rightarrow> (string + string) \<times> 'w State" where
  "log_event d e s =
     (case logEvent (memory d) e (world s) of
        (Inl err, w) \<Rightarrow> (Inl err, emit (LogRejected e err) (s\<lparr>world := w\<rparr>))
      | (Inr eid, w) \<Rightarrow> (Inr eid, emit (Logged e) (s\<lparr>world := w\<rparr>)))"

text \<open>
  \<^verbatim>\<open>await executor.isAvailable().catch(() => false)\<close>: a rejected promise is turned
  into \<^verbatim>\<open>false\<close>; a call that throws is outside every \<^verbatim>\<open>try\<close> and has no promise
  for \<^verbatim>\<open>.catch\<close>, so it rejects the dispatch, \<open>Inl msg\<close>.
\<close>

definition probe ::
  "ExecutorType \<Rightarrow> 'w Executor \<Rightarrow> 'w State \<Rightarrow> (string + bool) \<times> 'w State" where
  "probe ty ex s =
     (case isAvailable ex (world s) of
        (Resolves available, w) \<Rightarrow> (Inr available, emit (Probed ty available) (s\<lparr>world := w\<rparr>))
      | (Rejects err, w) \<Rightarrow> (Inr False, emit (Probed ty False) (s\<lparr>world := w\<rparr>))
      | (Throws msg, w) \<Rightarrow> (Inl msg, emit (ProbeThrew ty msg) (s\<lparr>world := w\<rparr>)))"

text \<open>\<^verbatim>\<open>await executor.execute(task)\<close>\<close>

definition call_execute ::
  "ExecutorType \<Rightarrow> 'w Executor \<Rightarrow> Task \<Rightarrow> int \<Rightarrow> 'w State
   \<Rightarrow> (string + ExecutorResult) \<times> 'w State" where
  "call_execute ty ex tk attempt s =
     (case execute ex tk (world s) of
        (r, w) \<Rightarrow> (r, emit (Executed ty attempt r) (s\<lparr>world := w\<rparr>)))"

text \<open>\<^verbatim>\<open>task.status = st; task.updatedAt = new Date()\<close>\<close>

definition set_status :: "'w Dispatcher \<Rightarrow> TaskStatus \<Rightarrow> Task \<Rightarrow> 'w State \<Rightarrow> Task \<times> 'w State" where
  "set_status d st tk s =
     (tk\<lparr>status := st, updatedAt := now (host d) (world s)\<rparr>, emit (StatusSet st) s)"

text \<open>\<^verbatim>\<open>await this.delay(ms)\<close>\<close>

definition delay :: "'w Dispatcher \<Rightarrow> int \<Rightarrow> 'w State \<Rightarrow> 'w State" where
  "delay d ms s = emit (Waited ms) (s\<lparr>world := setTimeout (host d) ms (world s)\<rparr>)"

definition started_event :: "Task \<Rightarrow> MemoryEvent" where
  "started_event tk =
     \<lparr>kind = task_started, taskId = Some (task_id tk), executorType = None,
      payload = StartedPayload (take 100 (prompt tk))\<rparr>"

definition called_event :: "Task \<Rightarrow> ExecutorType \<Rightarrow> int \<Rightarrow> MemoryEvent" where
  "called_event tk ty attempt =
     \<lparr>kind = executor_called, taskId = Some (task_id tk), executorType = Some ty,
      payload = CalledPayload attempt\<rparr>"

definition responded_event :: "Task \<Rightarrow> ExecutorType \<Rightarrow> ExecutorResult \<Rightarrow> MemoryEvent" where
  "responded_event tk ty res =
     \<lparr>kind = executor_responded, taskId = Some (task_id tk), executorType = Some ty,
      payload = RespondedPayload (success res) (durationMs res) (usage res)\<rparr>"

definition completed_event :: "Task \<Rightarrow> ExecutorType \<Rightarrow> int \<Rightarrow> MemoryEvent" where
  "completed_event tk ty n =
     \<lparr>kind = task_completed, taskId = Some (task_id tk), executorType = None,
      payload = CompletedPayload ty n\<rparr>"

definition failed_event :: "Task \<Rightarrow> string option \<Rightarrow> int \<Rightarrow> MemoryEvent" where
  "failed_event tk err n =
     \<lparr>kind = task_failed, taskId = Some (task_id tk), executorType = None,
      payload = FailedPayload err n\<rparr>"

text \<open>
  The \<^verbatim>\<open>catch\<close> block of a try: \<^verbatim>\<open>lastError\<close> becomes the message, which goes to
  \<^verbatim>\<open>console.error\<close>.
\<close>

datatype TryOutcome = Won DispatchResult | Lost "string option" Task

definition caught ::
  "ExecutorType \<Rightarrow> int \<Rightarrow> string \<Rightarrow> Task \<Rightarrow> 'w State \<Rightarrow> TryOutcome \<times> 'w State" where
  "caught ty attempt msg tk s = (Lost (Some msg) tk, emit (Console (AttemptFailed attempt ty msg)) s)"

text \<open>
  The \<^verbatim>\<open>try\<close> block of one try (lines 225 to 256 of the dispatcher): \<open>Won\<close> is its
  \<^verbatim>\<open>return\<close>, \<open>Lost\<close> carries the new \<^verbatim>\<open>lastError\<close> and the task as the block left it.
  The two logEvent calls are inside the \<^verbatim>\<open>try\<close>, so a rejection of either is caught
  like a throw of \<^verbatim>\<open>execute\<close>.
\<close>

definition try_once ::
  "'w Dispatcher \<Rightarrow> ExecutorType \<Rightarrow> 'w Executor \<Rightarrow> Task \<Rightarrow> int \<Rightarrow> int \<Rightarrow> 'w State
   \<Rightarrow> TryOutcome \<times> 'w State" where
  "try_once d ty ex tk attempt n s =
     (case call_execute ty ex tk attempt s of
        (Inl msg, s1) \<Rightarrow> caught ty attempt msg tk s1
      | (Inr res, s1) \<Rightarrow>
          (case log_event d (responded_event tk ty res) s1 of
             (Inl err, s2) \<Rightarrow> caught ty attempt err tk s2
           | (Inr eid, s2) \<Rightarrow>
               if success res then
                 (case set_status d Completed tk s2 of
                    (tk', s3) \<Rightarrow>
                      (case log_event d (completed_event tk' ty n) s3 of
                         (Inl err, s4) \<Rightarrow> caught ty attempt err tk' s4
                       | (Inr eid', s4) \<Rightarrow> (Won \<lparr>task = tk', result = res, attempts = n\<rparr>, s4)))
               else (Lost (error res) tk, s2)))"

text \<open>
  The inner loop \<^verbatim>\<open>for (let attempt = 1; attempt <= retryAttempts; attempt++)\<close>, entered
  at \<open>attempt\<close> with \<open>n\<close> attempts counted and \<^verbatim>\<open>lastError\<close> \<open>le\<close>. It leaves by the
  \<^verbatim>\<open>return\<close> of a successful try, by running out of tries, or by a rejection of the
  \<^verbatim>\<open>executor_called\<close> write, which no \<^verbatim>\<open>try\<close> encloses. The delay is
  \<^verbatim>\<open>retryDelayMs * attempt\<close>, handed to \<^verbatim>\<open>setTimeout\<close>.
\<close>

datatype LoopExit = Return DispatchResult | Continue int "string option" Task

function retry_loop ::
  "'w Dispatcher \<Rightarrow> ExecutorType \<Rightarrow> 'w Executor \<Rightarrow> int \<Rightarrow> Task \<Rightarrow> int \<Rightarrow> string option
   \<Rightarrow> 'w State \<Rightarrow> (string + LoopExit) \<times> 'w State" where
  "retry_loop d ty ex attempt tk n le s =
     (if attempt \<le> retryAttempts (options d) then
        (case log_event d (called_event tk ty attempt) s of
           (Inl err, s1) \<Rightarrow> (Inl err, s1)
         | (Inr eid, s1) \<Rightarrow>
             (case try_once d ty ex tk attempt (n + 1) s1 of
                (Won r, s2) \<Rightarrow> (Inr (Return r), s2)
              | (Lost le' tk', s2) \<Rightarrow>
                  retry_loop d ty ex (attempt + 1) tk' (n + 1) le'
                    (if attempt < retryAttempts (options d)
                     then delay d (retryDelayMs (options d) * attempt) s2 else s2)))
      else (Inr (Continue n le tk), s))"
  by pat_completeness auto
termination
  by (relation "measure (\<lambda>(d, ty, ex, attempt, tk, n, le, s).
        nat (retryAttempts (options d) + 1 - attempt))") auto

declare retry_loop.simps [simp del]

text \<open>The outer loop \<^verbatim>\<open>for (const executorType of executorOrder)\<close>.\<close>

fun executor_loop ::
  "'w Dispatcher \<Rightarrow> ExecutorType list \<Rightarrow> Task \<Rightarrow> int \<Rightarrow> string option \<Rightarrow> 'w State
   \<Rightarrow> (string + LoopExit) \<times> 'w State" where
  "executor_loop d [] tk n le s = (Inr (Continue n le tk), s)"
| "executor_loop d (ty # rest) tk n le s =
     (case map_of (executors d) ty of
        None \<Rightarrow> executor_loop d rest tk n le (emit (Console (NotRegistered ty)) s)
      | Some ex \<Rightarrow>
          (case probe ty ex s of
             (Inl err, s1) \<Rightarrow> (Inl err, s1)
           | (Inr available, s1) \<Rightarrow>
               if \<not> available then executor_loop d rest tk n le (emit (Console (NotAvailable ty)) s1)
               else
                 (case retry_loop d ty ex 1 tk n le s1 of
                    (Inl err, s2) \<Rightarrow> (Inl err, s2)
                  | (Inr (Return r), s2) \<Rightarrow> (Inr (Return r), s2)
                  | (Inr (Continue n' le' tk'), s2) \<Rightarrow> executor_loop d rest tk' n' le' s2)))"

definition getExecutorOrder :: "'w Dispatcher \<Rightarrow> Task \<Rightarrow> ExecutorType list" where
  "getExecutorOrder d tk =
     (case fallbackExecutors tk of
        Some (ty # rest) \<Rightarrow> ty # rest
      | _ \<Rightarrow> (case preferredExecutor tk of
                Some ty \<Rightarrow> [ty]
              | None \<Rightarrow> map fst (executors d)))"

definition failureResult :: "Task \<Rightarrow> string option \<Rightarrow> ExecutorResult" where
  "failureResult tk le =
     \<lparr>executor = (case preferredExecutor tk of Some ty \<Rightarrow> ty | None \<Rightarrow> sonnet),
      success = False,
      content = [],
      usage = None,
      error = Some (case le of Some msg \<Rightarrow> msg | None \<Rightarrow> ''All executors failed''),
      durationMs = 0\<rparr>"

text \<open>
  \<^verbatim>\<open>dispatch\<close>: \<open>Inl msg\<close> is the promise rejecting with that message, \<open>Inr r\<close> its
  DispatchResult. The task is passed by value and comes back in the result.
\<close>

definition dispatch ::
  "'w Dispatcher \<Rightarrow> Task \<Rightarrow> 'w State \<Rightarrow> (string + DispatchResult) \<times> 'w State" where
  "dispatch d tk0 s0 =
     (case set_status d Running tk0 s0 of
        (tk, s) \<Rightarrow>
          (case log_event d (started_event tk) s of
             (Inl err, s1) \<Rightarrow> (Inl err, s1)
           | (Inr eid, s1) \<Rightarrow>
               (case executor_loop d (getExecutorOrder d tk) tk 0 None s1 of
                  (Inl err, s2) \<Rightarrow> (Inl err, s2)
                | (Inr (Return r), s2) \<Rightarrow> (Inr r, s2)
                | (Inr (Continue n le tk'), s2) \<Rightarrow>
                    (case set_status d Failed tk' s2 of
                       (tk'', s3) \<Rightarrow>
                         (case log_event d (failed_event tk'' (error (failureResult tk'' le)) n) s3 of
                            (Inl err, s4) \<Rightarrow> (Inl err, s4)
                          | (Inr eid', s4) \<Rightarrow>
                              (Inr \<lparr>task = tk'', result = failureResult tk'' le, attempts = n\<rparr>, s4))))))"


section \<open>Asynchronous dispatch and the parallel mode of dispatchAll\<close>

text \<open>
  \<^verbatim>\<open>Promise.all(tasks.map(t => this.dispatch(t)))\<close> runs the dispatches interleaved: a
  dispatch gives way at each \<^verbatim>\<open>await\<close>, and the event loop resumes the pending
  dispatches in an order the program does not fix. For this mode \<^verbatim>\<open>dispatch\<close> is written
  a second time, as a computation that can be resumed step by step: it is finished with a
  value, rejected with a message, or it has a next step, an atomic action on the state
  after which the rest is known. The steps are the primitive actions of the dispatcher
  (each call of the environment is one step, which linearises calls in flight); \<open>and_then\<close>
  is the sequencing of \<^verbatim>\<open>await\<close>.
\<close>

datatype ('s, 'a) Async =
  Done 'a
  | Rejected string
  | Step "'s \<Rightarrow> 's" "'s \<Rightarrow> ('s, 'a) Async"

primrec and_then :: "('s, 'a) Async \<Rightarrow> ('a \<Rightarrow> ('s, 'b) Async) \<Rightarrow> ('s, 'b) Async" where
  "and_then (Done a) f = f a"
| "and_then (Rejected err) f = Rejected err"
| "and_then (Step g k) f = Step g (\<lambda>s. and_then (k s) f)"

definition perform :: "('s \<Rightarrow> 'a \<times> 's) \<Rightarrow> ('s, 'a) Async" where
  "perform f = Step (\<lambda>s. snd (f s)) (\<lambda>s. Done (fst (f s)))"

text \<open>Running a computation to its end, without giving way.\<close>

primrec run :: "('s, 'a) Async \<Rightarrow> 's \<Rightarrow> (string + 'a) \<times> 's" where
  "run (Done a) s = (Inr a, s)"
| "run (Rejected err) s = (Inl err, s)"
| "run (Step g k) s = run (k s) (g s)"

definition try_once_async ::
  "'w Dispatcher \<Rightarrow> ExecutorType \<Rightarrow> 'w Executor \<Rightarrow> Task \<Rightarrow> int \<Rightarrow> int
   \<Rightarrow> ('w State, TryOutcome) Async" where
  "try_once_async d ty ex tk attempt n =
     and_then (perform (call_execute ty ex tk attempt)) (\<lambda>r.
       case r of
         Inl msg \<Rightarrow> perform (caught ty attempt msg tk)
       | Inr res \<Rightarrow>
           and_then (perform (log_event d (responded_event tk ty res))) (\<lambda>l.
             case l of
               Inl err \<Rightarrow> perform (caught ty attempt err tk)
             | Inr eid \<Rightarrow>
                 if success res then
                   and_then (perform (set_status d Completed tk)) (\<lambda>tk'.
                     and_then (perform (log_event d (completed_event tk' ty n))) (\<lambda>l'.
                       case l' of
                         Inl err \<Rightarrow> perform (caught ty attempt err tk')
                       | Inr eid' \<Rightarrow> Done (Won \<lparr>task = tk', result = res, attempts = n\<rparr>)))
                 else Done (Lost (error res) tk)))"

function retry_loop_async ::
  "'w Dispatcher \<Rightarrow> ExecutorType \<Rightarrow> 'w Executor \<Rightarrow> int \<Rightarrow> Task \<Rightarrow> int \<Rightarrow> string option
   \<Rightarrow> ('w State, LoopExit) Async" where
  "retry_loop_async d ty ex attempt tk n le =
     (if attempt \<le> retryAttempts (options d) then
        and_then (perform (log_event d (called_event tk ty attempt))) (\<lambda>l.
          case l of
            Inl err \<Rightarrow> Rejected err
          | Inr eid \<Rightarrow>
              and_then (try_once_async d ty ex tk attempt (n + 1)) (\<lambda>outcome.
                case outcome of
                  Won r \<Rightarrow> Done (Return r)
                | Lost le' tk' \<Rightarrow>
                    and_then
                      (if attempt < retryAttempts (options d)
                       then perform (\<lambda>s. ((), delay d (retryDelayMs (options d) * attempt) s))
                       else Done ())
                      (\<lambda>u. retry_loop_async d ty ex (attempt + 1) tk' (n + 1) le')))
      else Done (Continue n le tk))"
  by pat_completeness auto
termination
  by (relation "measure (\<lambda>(d, ty, ex, attempt, tk, n, le).
        nat (retryAttempts (options d) + 1 - attempt))") auto

declare retry_loop_async.simps [simp del]

fun executor_loop_async ::
  "'w Dispatcher \<Rightarrow> ExecutorType list \<Rightarrow> Task \<Rightarrow> int \<Rightarrow> string option
   \<Rightarrow> ('w State, LoopExit) Async" where
  "executor_loop_async d [] tk n le = Done (Continue n le tk)"
| "executor_loop_async d (ty # rest) tk n le =
     (case map_of (executors d) ty of
        None \<Rightarrow>
          and_then (perform (\<lambda>s. ((), emit (Console (NotRegistered ty)) s)))
            (\<lambda>u. executor_loop_async d rest tk n le)
      | Some ex \<Rightarrow>
          and_then (perform (probe ty ex)) (\<lambda>p.
            case p of
              Inl err \<Rightarrow> Rejected err
            | Inr available \<Rightarrow>
                if \<not> available then
                  and_then (perform (\<lambda>s. ((), emit (Console (NotAvailable ty)) s)))
                    (\<lambda>u. executor_loop_async d rest tk n le)
                else
                  and_then (retry_loop_async d ty ex 1 tk n le) (\<lambda>exit.
                    case exit of
                      Return r \<Rightarrow> Done (Return r)
                    | Continue n' le' tk' \<Rightarrow> executor_loop_async d rest tk' n' le')))"

definition dispatch_async :: "'w Dispatcher \<Rightarrow> Task \<Rightarrow> ('w State, DispatchResult) Async" where
  "dispatch_async d tk0 =
     and_then (perform (set_status d Running tk0)) (\<lambda>tk.
       and_then (perform (log_event d (started_event tk))) (\<lambda>l.
         case l of
           Inl err \<Rightarrow> Rejected err
         | Inr eid \<Rightarrow>
             and_then (executor_loop_async d (getExecutorOrder d tk) tk 0 None) (\<lambda>exit.
               case exit of
                 Return r \<Rightarrow> Done r
               | Continue n le tk' \<Rightarrow>
                   and_then (perform (set_status d Failed tk')) (\<lambda>tk''.
                     and_then
                       (perform (log_event d (failed_event tk'' (error (failureResult tk'' le)) n)))
                       (\<lambda>l'. case l' of
                          Inl err \<Rightarrow> Rejected err
                        | Inr eid' \<Rightarrow>
                            Done \<lparr>task = tk'', result = failureResult tk'' le, attempts = n\<rparr>)))))"



fun finished :: "('s, 'a) Async \<Rightarrow> 'a option" where
  "finished (Done a) = Some a"
| "finished p = None"




text \<open>
  The state in which the sequential mode starts its \<open>i\<close>-th dispatch, and the
  computations that a computation can become when it is resumed some number of times,
  in whatever states.
\<close>

definition state_before :: "'w Dispatcher \<Rightarrow> Task list \<Rightarrow> nat \<Rightarrow> 'w State \<Rightarrow> 'w State" where
  "state_before d tasks i s = foldl (\<lambda>s' tk. snd (dispatch d tk s')) s (take i tasks)"

inductive becomes :: "('s, 'a) Async \<Rightarrow> ('s, 'a) Async \<Rightarrow> bool" where
  here: "becomes p p"
| resumed: "becomes (k s) q \<Longrightarrow> becomes (Step g k) q"

text \<open>
  What a computation can settle with, however it is resumed: every value it can finish
  with satisfies \<open>Q\<close>, every message it can be rejected with satisfies \<open>E\<close>. A
  computation is settled when it has no next step. The messages a dispatch can be
  rejected with are those of a \<^verbatim>\<open>logEvent\<close> call that rejects and of an
  \<^verbatim>\<open>isAvailable\<close> call of a registered executor that throws.
\<close>

definition settles_with :: "('s, 'a) Async \<Rightarrow> ('a \<Rightarrow> bool) \<Rightarrow> (string \<Rightarrow> bool) \<Rightarrow> bool" where
  "settles_with p Q E \<longleftrightarrow>
     (\<forall>a. becomes p (Done a) \<longrightarrow> Q a) \<and> (\<forall>err. becomes p (Rejected err) \<longrightarrow> E err)"



section \<open>Reading a trace\<close>

text \<open>The effects a dispatch adds to the trace it starts from.\<close>

definition dispatch_trace :: "'w Dispatcher \<Rightarrow> Task \<Rightarrow> 'w State \<Rightarrow> Effect list" where
  "dispatch_trace d tk s = drop (length (trace s)) (trace (snd (dispatch d tk s)))"

text \<open>The events the store accepted, in order: what \<^verbatim>\<open>getTaskHistory\<close> reads back.\<close>

fun events_of :: "Effect list \<Rightarrow> MemoryEvent list" where
  "events_of [] = []"
| "events_of (Logged e # tr) = e # events_of tr"
| "events_of (x # tr) = events_of tr"

text \<open>The tries: backend, try number and outcome of every call of \<^verbatim>\<open>execute\<close>.\<close>

fun tries_of :: "Effect list \<Rightarrow> (ExecutorType \<times> int \<times> (string + ExecutorResult)) list" where
  "tries_of [] = []"
| "tries_of (Executed ty a out # tr) = (ty, a, out) # tries_of tr"
| "tries_of (x # tr) = tries_of tr"

text \<open>The values written to the task's status.\<close>

fun statuses_of :: "Effect list \<Rightarrow> TaskStatus list" where
  "statuses_of [] = []"
| "statuses_of (StatusSet st # tr) = st # statuses_of tr"
| "statuses_of (x # tr) = statuses_of tr"

text \<open>
  The gates: one entry for every backend of the order that the outer loop reached, with
  whether it went on to the tries, that is, was registered and answered its probe with
  true. (An unavailable backend has its \<open>Probed\<close> entry; its console line adds none.
  A backend whose probe threw has no entry: the dispatch ends there, rejected.)
\<close>

fun gates_of :: "Effect list \<Rightarrow> (ExecutorType \<times> bool) list" where
  "gates_of [] = []"
| "gates_of (Console (NotRegistered ty) # tr) = (ty, False) # gates_of tr"
| "gates_of (Probed ty b # tr) = (ty, b) # gates_of tr"
| "gates_of (x # tr) = gates_of tr"

text \<open>What a try came to: did it succeed, and the error it leaves in \<^verbatim>\<open>lastError\<close>.\<close>

definition succeeded :: "string + ExecutorResult \<Rightarrow> bool" where
  "succeeded out = (case out of Inl msg \<Rightarrow> False | Inr res \<Rightarrow> success res)"

definition try_error :: "string + ExecutorResult \<Rightarrow> string option" where
  "try_error out = (case out of Inl msg \<Rightarrow> Some msg | Inr res \<Rightarrow> error res)"

definition last_error :: "(ExecutorType \<times> int \<times> (string + ExecutorResult)) list \<Rightarrow> string option" where
  "last_error tries = (if tries = [] then None else try_error (snd (snd (last tries))))"

text \<open>
  The events of one try: \<^verbatim>\<open>executor_called\<close>, then \<^verbatim>\<open>executor_responded\<close> if
  \<^verbatim>\<open>execute\<close> returned.
\<close>

definition try_events ::
  "Task \<Rightarrow> ExecutorType \<times> int \<times> (string + ExecutorResult) \<Rightarrow> MemoryEvent list" where
  "try_events tk t =
     (case t of (ty, a, out) \<Rightarrow>
        called_event tk ty a #
        (case out of Inl msg \<Rightarrow> [] | Inr res \<Rightarrow> [responded_event tk ty res]))"

text \<open>
  The shape of a task's history as the specification words it: it starts with
  \<^verbatim>\<open>task_started\<close>, ends with a terminal event, has one terminal event, and every
  \<^verbatim>\<open>executor_called\<close> is immediately followed by an \<^verbatim>\<open>executor_responded\<close> of
  the same task and backend.
\<close>

definition is_terminal :: "MemoryEvent \<Rightarrow> bool" where
  "is_terminal e \<longleftrightarrow> kind e = task_completed \<or> kind e = task_failed"

fun calls_answered :: "MemoryEvent list \<Rightarrow> bool" where
  "calls_answered [] = True"
| "calls_answered [e] = (kind e \<noteq> executor_called)"
| "calls_answered (e # e' # es) =
     ((kind e \<noteq> executor_called \<or>
       (kind e' = executor_responded \<and> executorType e' = executorType e \<and> taskId e' = taskId e))
      \<and> calls_answered (e' # es))"

definition well_formed_history :: "MemoryEvent list \<Rightarrow> bool" where
  "well_formed_history h \<longleftrightarrow>
     h \<noteq> [] \<and> kind (hd h) = task_started \<and> is_terminal (last h) \<and>
     length (filter is_terminal h) = 1 \<and> calls_answered h"


definition probe_settles :: "'w Executor \<Rightarrow> bool" where
  "probe_settles ex \<longleftrightarrow> (\<forall>w msg. fst (isAvailable ex w) \<noteq> Throws msg)"

definition probes_settle :: "'w Dispatcher \<Rightarrow> ExecutorType list \<Rightarrow> bool" where
  "probes_settle d order \<longleftrightarrow>
     (\<forall>ty\<in>set order. \<forall>ex. map_of (executors d) ty = Some ex \<longrightarrow> probe_settles ex)"

text \<open>Two values of a task that differ at most in \<^verbatim>\<open>status\<close> and \<^verbatim>\<open>updatedAt\<close>.\<close>

definition same_but_status :: "Task \<Rightarrow> Task \<Rightarrow> bool" where
  "same_but_status tk tk' \<longleftrightarrow> tk' = tk\<lparr>status := status tk', updatedAt := updatedAt tk'\<rparr>"

text \<open>
  The timeline of a dispatch: its tries, each with whether it succeeded, and the delays
  between them, in order.
\<close>

datatype Step = Tried ExecutorType int bool | Paused int

fun timeline_of :: "Effect list \<Rightarrow> Step list" where
  "timeline_of [] = []"
| "timeline_of (Executed ty a out # tr) = Tried ty a (succeeded out) # timeline_of tr"
| "timeline_of (Waited ms # tr) = Paused ms # timeline_of tr"
| "timeline_of (x # tr) = timeline_of tr"


text \<open>
  What the world itself can see of a timeline: which backend's \<^verbatim>\<open>execute\<close> was called,
  and the duration handed to \<^verbatim>\<open>setTimeout\<close>. A journal is a reading \<open>j\<close> of the
  world that is kept by the environment: \<^verbatim>\<open>setTimeout\<close> adds the duration it was given,
  \<^verbatim>\<open>execute\<close> of a registered executor adds the key it is registered under, and the
  probes and the store leave it alone.
\<close>

datatype Sighting = Ran ExecutorType | Slept int

fun sighting :: "Step \<Rightarrow> Sighting" where
  "sighting (Tried ty a ok) = Ran ty"
| "sighting (Paused ms) = Slept ms"


text \<open>
  Between two states, the journal has grown by what the world could see of the effects
  that the trace has grown by.
\<close>

definition journal_follows :: "('w \<Rightarrow> Sighting list) \<Rightarrow> 'w State \<Rightarrow> 'w State \<Rightarrow> bool" where
  "journal_follows j s s' \<longleftrightarrow>
     (\<exists>tr. trace s' = trace s @ tr \<and>
           j (world s') = j (world s) @ map sighting (timeline_of tr))"

text \<open>The store accepts every write.\<close>

definition sink_accepts :: "'w Dispatcher \<Rightarrow> bool" where
  "sink_accepts d \<longleftrightarrow> (\<forall>e w. \<not> isl (fst (logEvent (memory d) e w)))"

section \<open>A concrete world\<close>

text \<open>
  A world to run the dispatcher in: the rows of the events table, a clock, the number of
  \<^verbatim>\<open>execute\<close> calls made so far, and a journal of the \<^verbatim>\<open>execute\<close> calls and the
  timers as they happened. \<open>sqlite_store\<close> is \<^verbatim>\<open>SQLiteStore.logEvent\<close>, an INSERT of
  one row (the row's id and timestamp are left out); \<open>full_store\<close> is a store whose
  INSERT throws, \<open>no_completions_store\<close> one that refuses the \<^verbatim>\<open>task_completed\<close>
  rows only.
\<close>

record World =
  rows :: "MemoryEvent list"
  clock :: int
  calls :: nat
  journal :: "Sighting list"

definition sqlite_store :: "World MemoryStore" where
  "sqlite_store = \<lparr>logEvent = (\<lambda>e w. (Inr ''event-id'', w\<lparr>rows := rows w @ [e]\<rparr>))\<rparr>"

definition full_store :: "World MemoryStore" where
  "full_store = \<lparr>logEvent = (\<lambda>e w. (Inl ''database or disk is full'', w))\<rparr>"

definition no_completions_store :: "World MemoryStore" where
  "no_completions_store =
     \<lparr>logEvent = (\<lambda>e w. if kind e = task_completed then (Inl ''constraint failed'', w)
                         else (Inr ''event-id'', w\<lparr>rows := rows w @ [e]\<rparr>))\<rparr>"

definition wall_clock :: "World Host" where
  "wall_clock =
     \<lparr>now = clock,
      setTimeout = (\<lambda>ms w. w\<lparr>clock := clock w + ms, journal := journal w @ [Slept ms]\<rparr>)\<rparr>"

definition ok_result :: "ExecutorType \<Rightarrow> ExecutorResult" where
  "ok_result ty =
     \<lparr>executor = ty, success = True, content = ''hello'', usage = None, error = None,
      durationMs = 5\<rparr>"

definition failed_result :: "ExecutorType \<Rightarrow> string \<Rightarrow> ExecutorResult" where
  "failed_result ty msg =
     \<lparr>executor = ty, success = False, content = [], usage = None, error = Some msg,
      durationMs = 5\<rparr>"

text \<open>
  An executor with a fixed answer to the probe and an outcome of \<^verbatim>\<open>execute\<close> that
  depends on how many calls the world has seen.
\<close>

definition stub :: "ExecutorType \<Rightarrow> Availability \<Rightarrow> (nat \<Rightarrow> string + ExecutorResult) \<Rightarrow> World Executor" where
  "stub ty avail outcome =
     \<lparr>etype = ty,
      execute = (\<lambda>tk w. (outcome (calls w),
                   w\<lparr>calls := calls w + 1, journal := journal w @ [Ran ty]\<rparr>)),
      isAvailable = (\<lambda>w. (avail, w))\<rparr>"

definition dispatcher_of ::
  "(ExecutorType \<times> World Executor) list \<Rightarrow> World MemoryStore \<Rightarrow> int \<Rightarrow> int \<Rightarrow> World Dispatcher" where
  "dispatcher_of exs store r ms =
     \<lparr>executors = exs, memory = store,
      options = \<lparr>retryAttempts = r, retryDelayMs = ms\<rparr>, host = wall_clock\<rparr>"

definition task_for :: "ExecutorType option \<Rightarrow> ExecutorType list option \<Rightarrow> Task" where
  "task_for pref fallbacks =
     \<lparr>task_id = ''t1'', prompt = ''Say hello'', systemPrompt = None,
      preferredExecutor = pref, fallbackExecutors = fallbacks, priority = Normal,
      status = Pending, parentId = None, metadata = None, createdAt = 0, updatedAt = 0\<rparr>"


definition start :: "World State" where
  "start = \<lparr>world = \<lparr>rows = [], clock = 1000, calls = 0, journal = []\<rparr>, trace = []\<rparr>"

text \<open>Dispatchers to run: the registry, the store, the retry count and the base delay vary.\<close>

definition always :: "string + ExecutorResult \<Rightarrow> nat \<Rightarrow> string + ExecutorResult" where
  "always out k = out"

definition no_executors :: "World Dispatcher" where
  "no_executors = dispatcher_of [] sqlite_store 3 1000"

definition throwing_codex :: "World Dispatcher" where
  "throwing_codex =
     dispatcher_of [(codex, stub codex (Resolves True) (always (Inl ''socket hang up'')))]
       sqlite_store 1 1000"

definition failing_gemini :: "World Dispatcher" where
  "failing_gemini =
     dispatcher_of
       [(gemini, stub gemini (Resolves True) (always (Inr (failed_result gemini ''quota exceeded''))))]
       sqlite_store 1 1000"


definition codex_then_gemini :: "World Dispatcher" where
  "codex_then_gemini =
     dispatcher_of
       [(codex, stub codex (Resolves True) (always (Inr (failed_result codex ''rate limit'')))),
        (gemini, stub gemini (Resolves True) (always (Inr (ok_result gemini))))]
       sqlite_store 2 100"


text \<open>
  An executor registered as codex whose results name gemini; one whose
  \<^verbatim>\<open>isAvailable\<close> throws before it returns a promise; and a working executor over the
  store that refuses \<^verbatim>\<open>task_completed\<close>.
\<close>

definition mislabelling_codex :: "World Dispatcher" where
  "mislabelling_codex =
     dispatcher_of [(codex, stub codex (Resolves True) (always (Inr (ok_result gemini))))]
       sqlite_store 1 1000"


definition completion_refused :: "World Dispatcher" where
  "completion_refused =
     dispatcher_of [(codex, stub codex (Resolves True) (always (Inr (ok_result codex))))]
       no_completions_store 2 1000"

section \<open>Properties of getConfig\<close>

lemma redact_cases: "redact v = None \<or> redact v = Some ''[REDACTED]''"
  by (simp add: redact_def)

text \<open>
  C10, as stated, fails: a key that is present but empty is not replaced by
  \<^verbatim>\<open>'[REDACTED]'\<close>, it becomes \<^verbatim>\<open>undefined\<close>. The configurations with the OpenAI
  keys \<^verbatim>\<open>'sk-live'\<close> and \<^verbatim>\<open>''\<close> have the same keys present and differ in a key value
  only, and getConfig tells them apart.
\<close>

theorem C10_getConfig_empty_key_counterexample:
  "same_but_key_values (config_with_openai (Some ''sk-live'')) (config_with_openai (Some ''''))
   \<and> getConfig (config_with_openai (Some ''sk-live'')) \<noteq> getConfig (config_with_openai (Some ''''))
   \<and> openaiApiKey (getConfig (config_with_openai (Some ''''))) = None"
  by (simp add: same_but_key_values_def config_with_openai_def getConfig_def redact_def truthy_def)

text \<open>
  C10, amended: for every pair of configurations that differ only in the values of the
  API keys, with the same keys non-empty, getConfig returns equal values; every
  non-empty key is replaced by the literal \<^verbatim>\<open>'[REDACTED]'\<close>, every absent or empty key
  is returned as \<^verbatim>\<open>undefined\<close>, and nothing else in the configuration changes.
\<close>

theorem C10_getConfig_redacts:
  "(same_but_nonempty_key_values c1 c2 \<longrightarrow> getConfig c1 = getConfig c2)
   \<and> openaiApiKey (getConfig c1) = (if truthy (openaiApiKey c1) then Some ''[REDACTED]'' else None)
   \<and> anthropicApiKey (getConfig c1) = (if truthy (anthropicApiKey c1) then Some ''[REDACTED]'' else None)
   \<and> googleApiKey (getConfig c1) = (if truthy (googleApiKey c1) then Some ''[REDACTED]'' else None)
   \<and> memoryPath (getConfig c1) = memoryPath c1 \<and> logLevel (getConfig c1) = logLevel c1
   \<and> planner (getConfig c1) = planner c1"
  by (simp add: same_but_nonempty_key_values_def getConfig_def redact_def)

theorem C10_getConfig_redacts_witness:
  "same_but_nonempty_key_values (config_with_openai (Some ''sk-live'')) (config_with_openai (Some ''sk-test''))
   \<and> getConfig (config_with_openai (Some ''sk-live'')) = getConfig (config_with_openai (Some ''sk-test''))
   \<and> openaiApiKey (getConfig (config_with_openai (Some ''sk-live''))) = Some ''[REDACTED]''"
proof -
  have h: "same_but_nonempty_key_values (config_with_openai (Some ''sk-live''))
             (config_with_openai (Some ''sk-test''))"
    by (simp add: same_but_nonempty_key_values_def config_with_openai_def truthy_def)
  have t: "truthy (openaiApiKey (config_with_openai (Some ''sk-live'')))"
    by (simp add: config_with_openai_def truthy_def)
  note th = C10_getConfig_redacts [of "config_with_openai (Some ''sk-live'')"
      "config_with_openai (Some ''sk-test'')"]
  have a: "getConfig (config_with_openai (Some ''sk-live'')) = getConfig (config_with_openai (Some ''sk-test''))"
    using th h by blast
  have b: "openaiApiKey (getConfig (config_with_openai (Some ''sk-live''))) = Some ''[REDACTED]''"
    using th t by simp
  show ?thesis using h a b by blast
qed

section \<open>Properties of dispatch\<close>

lemma trace_emit [simp]: "trace (emit x s) = trace s @ [x]"
  by (simp add: emit_def)

lemma world_emit [simp]: "world (emit x s) = world s"
  by (simp add: emit_def)

lemma events_of_append [simp]: "events_of (xs @ ys) = events_of xs @ events_of ys"
  by (induction xs rule: events_of.induct) simp_all

lemma tries_of_append [simp]: "tries_of (xs @ ys) = tries_of xs @ tries_of ys"
  by (induction xs rule: tries_of.induct) simp_all

lemma statuses_of_append [simp]: "statuses_of (xs @ ys) = statuses_of xs @ statuses_of ys"
  by (induction xs rule: statuses_of.induct) simp_all

lemma gates_of_append [simp]: "gates_of (xs @ ys) = gates_of xs @ gates_of ys"
  by (induction xs rule: gates_of.induct) simp_all

lemma events_of_Cons: "events_of (x # ys) = events_of [x] @ events_of ys"
  using events_of_append [of "[x]" ys] by simp

lemma tries_of_Cons: "tries_of (x # ys) = tries_of [x] @ tries_of ys"
  using tries_of_append [of "[x]" ys] by simp

lemma statuses_of_Cons: "statuses_of (x # ys) = statuses_of [x] @ statuses_of ys"
  using statuses_of_append [of "[x]" ys] by simp

lemma gates_of_Cons: "gates_of (x # ys) = gates_of [x] @ gates_of ys"
  using gates_of_append [of "[x]" ys] by simp

lemma log_event_accepted:
  assumes "sink_accepts d"
  shows "log_event d e s =
    (Inr (projr (fst (logEvent (memory d) e (world s)))),
     emit (Logged e) (s\<lparr>world := snd (logEvent (memory d) e (world s))\<rparr>))"
proof -
  from assms have "\<not> isl (fst (logEvent (memory d) e (world s)))"
    by (simp add: sink_accepts_def)
  then show ?thesis
    by (cases "logEvent (memory d) e (world s)") (auto simp: log_event_def split: sum.splits)
qed


lemma not_isl_fst_eq: "(\<not> isl (fst p)) = (\<exists>x s. p = (Inr x, s))"
proof (cases p)
  case (Pair a b)
  then show ?thesis by (cases a) simp_all
qed

lemma retry_loop_done:
  "\<not> attempt \<le> retryAttempts (options d) \<Longrightarrow>
   retry_loop d ty ex attempt tk n le s = (Inr (Continue n le tk), s)"
  by (simp add: retry_loop.simps [of d ty ex attempt])

lemma retry_loop_step:
  "attempt \<le> retryAttempts (options d) \<Longrightarrow>
   retry_loop d ty ex attempt tk n le s =
     (case log_event d (called_event tk ty attempt) s of
        (Inl err, s1) \<Rightarrow> (Inl err, s1)
      | (Inr eid, s1) \<Rightarrow>
          (case try_once d ty ex tk attempt (n + 1) s1 of
             (Won r, s2) \<Rightarrow> (Inr (Return r), s2)
           | (Lost le' tk', s2) \<Rightarrow>
               retry_loop d ty ex (attempt + 1) tk' (n + 1) le'
                 (if attempt < retryAttempts (options d)
                  then delay d (retryDelayMs (options d) * attempt) s2 else s2)))"
  by (simp add: retry_loop.simps [of d ty ex attempt])

lemma retry_loop_induct [consumes 0, case_names finished next_try]:
  assumes fin: "\<And>attempt tk n le s. \<not> attempt \<le> retryAttempts (options d) \<Longrightarrow> P attempt tk n le s"
    and nxt: "\<And>attempt tk n le s.
      attempt \<le> retryAttempts (options d) \<Longrightarrow>
      (\<And>eid s1 le' tk' s2.
          log_event d (called_event tk ty attempt) s = (Inr eid, s1) \<Longrightarrow>
          try_once d ty ex tk attempt (n + 1) s1 = (Lost le' tk', s2) \<Longrightarrow>
          P (attempt + 1) tk' (n + 1) le'
            (if attempt < retryAttempts (options d)
             then delay d (retryDelayMs (options d) * attempt) s2 else s2)) \<Longrightarrow>
      P attempt tk n le s"
  shows "P attempt tk n le s"
  using fin nxt
proof (induction d ty ex attempt tk n le s rule: retry_loop.induct)
  case (1 d ty ex attempt tk n le s)
  note fin' = "1.prems" (1) and nxt' = "1.prems" (2)
  show ?case
  proof (cases "attempt \<le> retryAttempts (options d)")
    case False
    then show ?thesis by (rule fin')
  next
    case True
    show ?thesis
    proof (rule nxt' [OF True])
      fix eid s1 le' tk' s2
      assume l: "log_event d (called_event tk ty attempt) s = (Inr eid, s1)"
        and t: "try_once d ty ex tk attempt (n + 1) s1 = (Lost le' tk', s2)"
      show "P (attempt + 1) tk' (n + 1) le'
            (if attempt < retryAttempts (options d)
             then delay d (retryDelayMs (options d) * attempt) s2 else s2)"
        by (rule "1.IH" [OF True l [symmetric] refl t [symmetric] refl fin' nxt'])
    qed
  qed
qed

lemma retry_loop_returns:
  "sink_accepts d \<Longrightarrow> \<not> isl (fst (retry_loop d ty ex attempt tk n le s))"
proof (induction attempt tk n le s rule: retry_loop_induct [where d = d and ty = ty and ex = ex])
  case (finished attempt tk n le s)
  then show ?case by (simp add: retry_loop_done)
next
  case (next_try attempt tk n le s)
  obtain eid s1 where l: "log_event d (called_event tk ty attempt) s = (Inr eid, s1)"
    using log_event_accepted [OF next_try.prems] by blast
  obtain out s2 where t: "try_once d ty ex tk attempt (n + 1) s1 = (out, s2)"
    by force
  show ?case
  proof (cases out)
    case (Won r)
    with l t show ?thesis by (simp add: retry_loop_step [OF next_try.hyps])
  next
    case (Lost le' tk')
    with next_try.IH [OF l t [unfolded Lost] next_try.prems] l t
    show ?thesis by (simp add: retry_loop_step [OF next_try.hyps])
  qed
qed

lemma probe_cases [case_names threw answered]:
  assumes "\<And>msg s1. probe ty ex s = (Inl msg, s1) \<Longrightarrow>
      trace s1 = trace s @ [ProbeThrew ty msg] \<Longrightarrow>
      fst (isAvailable ex (world s)) = Throws msg \<Longrightarrow> P"
    and "\<And>b s1. probe ty ex s = (Inr b, s1) \<Longrightarrow> trace s1 = trace s @ [Probed ty b] \<Longrightarrow>
      (b \<longrightarrow> fst (isAvailable ex (world s)) = Resolves True) \<Longrightarrow>
      (\<forall>msg. fst (isAvailable ex (world s)) \<noteq> Throws msg) \<Longrightarrow> P"
  shows P
proof (cases "isAvailable ex (world s)")
  case (Pair a w)
  show ?thesis
  proof (cases a)
    case (Resolves b)
    with Pair show ?thesis
      by (intro assms(2) [of b "emit (Probed ty b) (s\<lparr>world := w\<rparr>)"]) (simp_all add: probe_def)
  next
    case (Rejects err)
    with Pair show ?thesis
      by (intro assms(2) [of False "emit (Probed ty False) (s\<lparr>world := w\<rparr>)"])
        (simp_all add: probe_def)
  next
    case (Throws msg)
    with Pair show ?thesis
      by (intro assms(1) [of msg "emit (ProbeThrew ty msg) (s\<lparr>world := w\<rparr>)"])
        (simp_all add: probe_def)
  qed
qed

lemma probe_settles_answers:
  "probe_settles ex \<Longrightarrow> \<exists>b s1. probe ty ex s = (Inr b, s1)"
  by (cases rule: probe_cases [of ty ex s]) (auto simp: probe_settles_def)

lemma executor_loop_returns:
  "sink_accepts d \<Longrightarrow> probes_settle d order \<Longrightarrow>
   \<not> isl (fst (executor_loop d order tk n le s))"
proof (induction order arbitrary: tk n le s)
  case Nil
  show ?case by simp
next
  case (Cons ty rest)
  from Cons.prems(2) have rest: "probes_settle d rest"
    by (simp add: probes_settle_def)
  note IH = Cons.IH [OF Cons.prems(1) rest]
  show ?case
  proof (cases "map_of (executors d) ty")
    case None
    with IH show ?thesis by simp
  next
    case (Some ex)
    from Cons.prems(2) Some have "probe_settles ex"
      by (simp add: probes_settle_def)
    then obtain available s1 where p: "probe ty ex s = (Inr available, s1)"
      using probe_settles_answers by blast
    show ?thesis
    proof (cases available)
      case False
      with IH Some p show ?thesis by simp
    next
      case True
      obtain x s2 where r: "retry_loop d ty ex 1 tk n le s1 = (Inr x, s2)"
        using retry_loop_returns [OF Cons.prems(1), of ty ex 1 tk n le s1]
        by (auto simp: not_isl_fst_eq)
      show ?thesis using IH Some p True r by (cases x) simp_all
    qed
  qed
qed

lemma dispatch_returns:
  assumes "sink_accepts d" and "probes_settle d (getExecutorOrder d tk)"
  shows "\<not> isl (fst (dispatch d tk s))"
proof -
  obtain tk1 s1 where a: "set_status d Running tk s = (tk1, s1)" by force
  have o: "getExecutorOrder d tk1 = getExecutorOrder d tk"
    using a by (auto simp: set_status_def getExecutorOrder_def split: option.splits list.splits)
  obtain x s3 where l: "executor_loop d (getExecutorOrder d tk1) tk1 0 None
      (snd (log_event d (started_event tk1) s1)) = (Inr x, s3)"
    using executor_loop_returns [OF assms(1) assms(2) [folded o], of tk1 0 None
        "snd (log_event d (started_event tk1) s1)"]
    by (auto simp: not_isl_fst_eq)
  show ?thesis
    using a l
    by (cases x) (simp_all add: dispatch_def log_event_accepted [OF assms(1)] split: prod.splits)
qed


lemma state_eqI: "world s = world s' \<Longrightarrow> trace s = trace s' \<Longrightarrow> (s :: 'w State) = s'"
  by simp

lemma completed_event_frame [simp]:
  "completed_event (tk\<lparr>status := st, updatedAt := u\<rparr>) ty n = completed_event tk ty n"
  by (simp add: completed_event_def)

lemma try_once_cases [consumes 1, case_names threw failed won]:
  assumes acc: "sink_accepts d"
    and threw: "\<And>msg s'.
      fst (execute ex tk (world s)) = Inl msg \<Longrightarrow>
      try_once d ty ex tk attempt n s = (Lost (Some msg) tk, s') \<Longrightarrow>
      trace s' = trace s @ [Executed ty attempt (Inl msg), Console (AttemptFailed attempt ty msg)] \<Longrightarrow> P"
    and failed: "\<And>res s'.
      fst (execute ex tk (world s)) = Inr res \<Longrightarrow> \<not> success res \<Longrightarrow>
      try_once d ty ex tk attempt n s = (Lost (error res) tk, s') \<Longrightarrow>
      trace s' = trace s @ [Executed ty attempt (Inr res), Logged (responded_event tk ty res)] \<Longrightarrow> P"
    and won: "\<And>res u s'.
      fst (execute ex tk (world s)) = Inr res \<Longrightarrow> success res \<Longrightarrow>
      try_once d ty ex tk attempt n s =
        (Won \<lparr>task = tk\<lparr>status := Completed, updatedAt := u\<rparr>, result = res, attempts = n\<rparr>, s') \<Longrightarrow>
      trace s' = trace s @ [Executed ty attempt (Inr res), Logged (responded_event tk ty res),
                            StatusSet Completed, Logged (completed_event tk ty n)] \<Longrightarrow> P"
  shows P
proof (cases "execute ex tk (world s)")
  case (Pair out w)
  show ?thesis
  proof (cases out)
    case (Inl msg)
    show ?thesis
      by (rule threw [of msg])
        (simp add: Pair Inl try_once_def call_execute_def caught_def)+
  next
    case (Inr res)
    show ?thesis
    proof (cases "success res")
      case False
      show ?thesis
        by (rule failed [of res])
          (simp add: Pair Inr False try_once_def call_execute_def log_event_accepted [OF acc])+
    next
      case True
      show ?thesis
        by (rule won [of res])
          (simp add: Pair Inr True try_once_def call_execute_def set_status_def
            log_event_accepted [OF acc])+
    qed
  qed
qed


lemma try_once_lost:
  assumes acc: "sink_accepts d"
    and lost: "try_once d ty ex tk attempt n s = (Lost le1 tk1, s2)"
  obtains out x where "tk1 = tk" "le1 = try_error out" "\<not> succeeded out"
    "fst (execute ex tk (world s)) = out"
    "trace s2 = trace s @ [Executed ty attempt out, x]"
    "events_of [x] = tl (try_events tk (ty, attempt, out))"
    "tries_of [x] = []" "gates_of [x] = []" "statuses_of [x] = []"
  using acc
proof (cases rule: try_once_cases [where d = d and ex = ex and tk = tk and s = s and ty = ty
      and attempt = attempt and n = n])
  case (threw msg s')
  with lost show ?thesis
    by (intro that [of "Inl msg" "Console (AttemptFailed attempt ty msg)"])
      (simp_all add: try_error_def succeeded_def try_events_def)
next
  case (failed res s')
  with lost show ?thesis
    by (intro that [of "Inr res" "Logged (responded_event tk ty res)"])
      (simp_all add: try_error_def succeeded_def try_events_def)
next
  case (won res u s')
  with lost show ?thesis by simp
qed

lemma try_once_won:
  assumes acc: "sink_accepts d"
    and won: "try_once d ty ex tk attempt n s = (Won r, s2)"
  obtains res u where "r = \<lparr>task = tk\<lparr>status := Completed, updatedAt := u\<rparr>, result = res, attempts = n\<rparr>"
    "success res" "fst (execute ex tk (world s)) = Inr res"
    "trace s2 = trace s @ [Executed ty attempt (Inr res), Logged (responded_event tk ty res),
                           StatusSet Completed, Logged (completed_event tk ty n)]"
  using acc
proof (cases rule: try_once_cases [where d = d and ex = ex and tk = tk and s = s and ty = ty
      and attempt = attempt and n = n])
  case (threw msg s')
  with won show ?thesis by simp
next
  case (failed res s')
  with won show ?thesis by simp
next
  case (won res u s')
  with assms(2) show ?thesis by (intro that [of u res]) simp_all
qed

lemma trace_after_wait:
  "trace (if c then delay d ms s else s) = trace s @ (if c then [Waited ms] else [])"
  by (simp add: delay_def)

lemma log_event_accepted_trace:
  assumes "sink_accepts d"
  obtains eid s1 where "log_event d e s = (Inr eid, s1)" "trace s1 = trace s @ [Logged e]"
  using log_event_accepted [OF assms, of e s] by simp

lemma retry_loop_continue:
  assumes acc: "sink_accepts d"
  shows "retry_loop d ty ex attempt tk n le s = (Inr (Continue n' le' tk'), s') \<Longrightarrow>
    \<exists>tr. trace s' = trace s @ tr \<and> tk' = tk \<and> gates_of tr = [] \<and> statuses_of tr = [] \<and>
      events_of tr = concat (map (try_events tk) (tries_of tr)) \<and>
      (\<forall>t\<in>set (tries_of tr). fst t = ty \<and> \<not> succeeded (snd (snd t))) \<and>
      int (length (tries_of tr)) = max 0 (retryAttempts (options d) + 1 - attempt) \<and>
      n' = n + int (length (tries_of tr)) \<and>
      le' = (if tries_of tr = [] then le else try_error (snd (snd (last (tries_of tr)))))"
proof (induction attempt tk n le s rule: retry_loop_induct [where d = d and ty = ty and ex = ex])
  case (finished attempt tk n le s)
  then show ?case by (simp add: retry_loop_done)
next
  case (next_try attempt tk n le s)
  obtain eid s1 where l: "log_event d (called_event tk ty attempt) s = (Inr eid, s1)"
    and t1: "trace s1 = trace s @ [Logged (called_event tk ty attempt)]"
    by (rule log_event_accepted_trace [OF acc])
  obtain outc s2 where t: "try_once d ty ex tk attempt (n + 1) s1 = (outc, s2)"
    by force
  show ?case
  proof (cases outc)
    case (Won r)
    with next_try.prems l t show ?thesis
      by (simp add: retry_loop_step [OF next_try.hyps])
  next
    case (Lost le1 tk1)
    note t = t [unfolded Lost]
    define s3 where "s3 = (if attempt < retryAttempts (options d)
        then delay d (retryDelayMs (options d) * attempt) s2 else s2)"
    from try_once_lost [OF acc t] obtain out x where
      tk1: "tk1 = tk" and le1: "le1 = try_error out" and ns: "\<not> succeeded out"
      and t2: "trace s2 = trace s1 @ [Executed ty attempt out, x]"
      and x: "events_of [x] = tl (try_events tk (ty, attempt, out))"
        "tries_of [x] = []" "gates_of [x] = []" "statuses_of [x] = []"
      by blast
    have rec: "retry_loop d ty ex (attempt + 1) tk1 (n + 1) le1 s3 = (Inr (Continue n' le' tk'), s')"
      using next_try.prems l t by (simp add: retry_loop_step [OF next_try.hyps] s3_def)
    from next_try.IH [OF l t rec [unfolded s3_def]]
    obtain tr where ih: "trace s' = trace s3 @ tr" "tk' = tk1" "gates_of tr = []"
      "statuses_of tr = []" "events_of tr = concat (map (try_events tk1) (tries_of tr))"
      "\<forall>t\<in>set (tries_of tr). fst t = ty \<and> \<not> succeeded (snd (snd t))"
      "int (length (tries_of tr)) = max 0 (retryAttempts (options d) + 1 - (attempt + 1))"
      "n' = n + 1 + int (length (tries_of tr))"
      "le' = (if tries_of tr = [] then le1 else try_error (snd (snd (last (tries_of tr)))))"
      unfolding s3_def by blast
    define w where "w = (if attempt < retryAttempts (options d)
        then [Waited (retryDelayMs (options d) * attempt)] else [])"
    have t3: "trace s3 = trace s2 @ w"
      by (simp add: s3_def w_def trace_after_wait)
    have w: "events_of w = []" "tries_of w = []" "gates_of w = []" "statuses_of w = []"
      by (simp_all add: w_def)
    let ?tr = "[Logged (called_event tk ty attempt), Executed ty attempt out, x] @ w @ tr"
    have ev: "called_event tk ty attempt # tl (try_events tk (ty, attempt, out))
        = try_events tk (ty, attempt, out)"
      by (simp add: try_events_def)
    have px: "tries_of (x # w @ tr) = tries_of tr"
      "events_of (x # w @ tr) = tl (try_events tk (ty, attempt, out)) @ events_of tr"
      "gates_of (x # w @ tr) = gates_of tr" "statuses_of (x # w @ tr) = statuses_of tr"
      using x w
      by (simp_all add: tries_of_Cons [of x "w @ tr"] events_of_Cons [of x "w @ tr"]
          gates_of_Cons [of x "w @ tr"] statuses_of_Cons [of x "w @ tr"])
    have "trace s' = trace s @ ?tr"
      by (simp add: ih(1) t3 t2 t1)
    moreover have "tries_of ?tr = (ty, attempt, out) # tries_of tr"
      using px by simp
    moreover have "events_of ?tr = try_events tk (ty, attempt, out) @ events_of tr"
      using px ev by simp
    moreover have "gates_of ?tr = []" "statuses_of ?tr = []"
      using px ih by simp_all
    ultimately show ?thesis
      using ih ns tk1 le1 next_try.hyps
      by (intro exI [of _ ?tr]) (auto simp: max_def)
  qed
qed


lemma retry_iteration [consumes 2, case_names won lost]:
  assumes acc: "sink_accepts d" and le: "attempt \<le> retryAttempts (options d)"
    and won: "\<And>eid s1 r s2 res u.
      log_event d (called_event tk ty attempt) s = (Inr eid, s1) \<Longrightarrow>
      try_once d ty ex tk attempt (n + 1) s1 = (Won r, s2) \<Longrightarrow>
      retry_loop d ty ex attempt tk n le0 s = (Inr (Return r), s2) \<Longrightarrow>
      r = \<lparr>task = tk\<lparr>status := Completed, updatedAt := u\<rparr>, result = res, attempts = n + 1\<rparr> \<Longrightarrow>
      success res \<Longrightarrow> (\<exists>w. fst (execute ex tk w) = Inr res) \<Longrightarrow>
      trace s2 = trace s @ [Logged (called_event tk ty attempt), Executed ty attempt (Inr res),
        Logged (responded_event tk ty res), StatusSet Completed,
        Logged (completed_event tk ty (n + 1))] \<Longrightarrow> P"
    and lost: "\<And>eid s1 out x s2.
      log_event d (called_event tk ty attempt) s = (Inr eid, s1) \<Longrightarrow>
      try_once d ty ex tk attempt (n + 1) s1 = (Lost (try_error out) tk, s2) \<Longrightarrow>
      retry_loop d ty ex attempt tk n le0 s =
        retry_loop d ty ex (attempt + 1) tk (n + 1) (try_error out)
          (if attempt < retryAttempts (options d)
           then delay d (retryDelayMs (options d) * attempt) s2 else s2) \<Longrightarrow>
      \<not> succeeded out \<Longrightarrow> (\<exists>w. fst (execute ex tk w) = out) \<Longrightarrow>
      trace (if attempt < retryAttempts (options d)
             then delay d (retryDelayMs (options d) * attempt) s2 else s2) =
        trace s @ [Logged (called_event tk ty attempt), Executed ty attempt out, x] @
          (if attempt < retryAttempts (options d)
           then [Waited (retryDelayMs (options d) * attempt)] else []) \<Longrightarrow>
      events_of [x] = tl (try_events tk (ty, attempt, out)) \<Longrightarrow>
      tries_of [x] = [] \<Longrightarrow> gates_of [x] = [] \<Longrightarrow> statuses_of [x] = [] \<Longrightarrow>
      (\<exists>c. x = Console c) \<or> (\<exists>e. x = Logged e) \<Longrightarrow> P"
  shows P
proof -
  obtain eid s1 where l: "log_event d (called_event tk ty attempt) s = (Inr eid, s1)"
    and t1: "trace s1 = trace s @ [Logged (called_event tk ty attempt)]"
    by (rule log_event_accepted_trace [OF acc])
  show ?thesis
    using acc
  proof (cases rule: try_once_cases [where d = d and ex = ex and tk = tk and s = s1 and ty = ty
        and attempt = attempt and n = "n + 1"])
    case (threw msg s2)
    show ?thesis
    proof (rule lost [of eid s1 "Inl msg" s2 "Console (AttemptFailed attempt ty msg)"])
      show "retry_loop d ty ex attempt tk n le0 s =
        retry_loop d ty ex (attempt + 1) tk (n + 1) (try_error (Inl msg))
          (if attempt < retryAttempts (options d)
           then delay d (retryDelayMs (options d) * attempt) s2 else s2)"
        using l threw by (simp add: retry_loop_step [OF le] try_error_def)
      show "\<exists>w. fst (execute ex tk w) = Inl msg" using threw(1) by blast
    qed (use l t1 threw in \<open>simp_all add: try_error_def succeeded_def try_events_def trace_after_wait\<close>)
  next
    case (failed res s2)
    show ?thesis
    proof (rule lost [of eid s1 "Inr res" s2 "Logged (responded_event tk ty res)"])
      show "retry_loop d ty ex attempt tk n le0 s =
        retry_loop d ty ex (attempt + 1) tk (n + 1) (try_error (Inr res))
          (if attempt < retryAttempts (options d)
           then delay d (retryDelayMs (options d) * attempt) s2 else s2)"
        using l failed by (simp add: retry_loop_step [OF le] try_error_def)
      show "\<exists>w. fst (execute ex tk w) = Inr res" using failed(1) by blast
    qed (use l t1 failed in \<open>simp_all add: try_error_def succeeded_def try_events_def trace_after_wait\<close>)
  next
    case (won res u s2)
    show ?thesis
    proof (rule assms(3) [of eid s1 _ s2 u res])
      show "retry_loop d ty ex attempt tk n le0 s =
        (Inr (Return \<lparr>task = tk\<lparr>status := Completed, updatedAt := u\<rparr>, result = res,
           attempts = n + 1\<rparr>), s2)"
        using l won by (simp add: retry_loop_step [OF le])
      show "\<exists>w. fst (execute ex tk w) = Inr res" using won(1) by blast
    qed (use l t1 won in simp_all)
  qed
qed

lemma retry_loop_return:
  assumes acc: "sink_accepts d"
  shows "retry_loop d ty ex attempt tk n le s = (Inr (Return r), s') \<Longrightarrow>
    \<exists>tr u. trace s' = trace s @ tr \<and> task r = tk\<lparr>status := Completed, updatedAt := u\<rparr> \<and>
      gates_of tr = [] \<and> statuses_of tr = [Completed] \<and> tries_of tr \<noteq> [] \<and>
      last (tries_of tr) = (ty, attempt + int (length (tries_of tr)) - 1, Inr (result r)) \<and>
      success (result r) \<and>
      (\<forall>t\<in>set (butlast (tries_of tr)). fst t = ty \<and> \<not> succeeded (snd (snd t))) \<and>
      attempt + int (length (tries_of tr)) - 1 \<le> retryAttempts (options d) \<and>
      attempts r = n + int (length (tries_of tr)) \<and>
      events_of tr = concat (map (try_events tk) (tries_of tr)) @ [completed_event tk ty (attempts r)] \<and>
      (\<exists>w. fst (execute ex tk w) = Inr (result r))"
proof (induction attempt tk n le s rule: retry_loop_induct [where d = d and ty = ty and ex = ex])
  case (finished attempt tk n le s)
  then show ?case by (simp add: retry_loop_done)
next
  case (next_try attempt tk n le s)
  from acc next_try.hyps show ?case
  proof (cases rule: retry_iteration [where tk = tk and ty = ty and ex = ex and n = n and s = s
        and ?le0.0 = le])
    case (won eid s1 r1 s2 res u)
    let ?tr = "[Logged (called_event tk ty attempt), Executed ty attempt (Inr res),
        Logged (responded_event tk ty res), StatusSet Completed,
        Logged (completed_event tk ty (n + 1))]"
    from won next_try.prems have r: "r = r1" "s' = s2" by simp_all
    show ?thesis
      using won r next_try.hyps
      by (intro exI [of _ ?tr] exI [of _ u]) (simp add: try_events_def)
  next
    case (lost eid s1 out x s2)
    define s3 where "s3 = (if attempt < retryAttempts (options d)
        then delay d (retryDelayMs (options d) * attempt) s2 else s2)"
    define w where "w = (if attempt < retryAttempts (options d)
        then [Waited (retryDelayMs (options d) * attempt)] else [])"
    have rec: "retry_loop d ty ex (attempt + 1) tk (n + 1) (try_error out) s3 = (Inr (Return r), s')"
      using next_try.prems lost(3) by (simp add: s3_def)
    from next_try.IH [OF lost(1) lost(2) rec [unfolded s3_def]]
    obtain tr u where ih: "trace s' = trace s3 @ tr"
      "task r = tk\<lparr>status := Completed, updatedAt := u\<rparr>"
      "gates_of tr = []" "statuses_of tr = [Completed]" "tries_of tr \<noteq> []"
      "last (tries_of tr) = (ty, attempt + 1 + int (length (tries_of tr)) - 1, Inr (result r))"
      "success (result r)"
      "\<forall>t\<in>set (butlast (tries_of tr)). fst t = ty \<and> \<not> succeeded (snd (snd t))"
      "attempt + 1 + int (length (tries_of tr)) - 1 \<le> retryAttempts (options d)"
      "attempts r = n + 1 + int (length (tries_of tr))"
      "events_of tr = concat (map (try_events tk) (tries_of tr)) @ [completed_event tk ty (attempts r)]"
      "\<exists>w. fst (execute ex tk w) = Inr (result r)"
      unfolding s3_def by blast
    have t3: "trace s3 = trace s @ [Logged (called_event tk ty attempt), Executed ty attempt out, x] @ w"
      using lost(6) by (simp add: s3_def w_def)
    have w: "events_of w = []" "tries_of w = []" "gates_of w = []" "statuses_of w = []"
      by (simp_all add: w_def)
    have px: "tries_of (x # w @ tr) = tries_of tr"
      "events_of (x # w @ tr) = tl (try_events tk (ty, attempt, out)) @ events_of tr"
      "gates_of (x # w @ tr) = gates_of tr" "statuses_of (x # w @ tr) = statuses_of tr"
      using lost w
      by (simp_all add: tries_of_Cons [of x "w @ tr"] events_of_Cons [of x "w @ tr"]
          gates_of_Cons [of x "w @ tr"] statuses_of_Cons [of x "w @ tr"])
    let ?tr = "[Logged (called_event tk ty attempt), Executed ty attempt out, x] @ w @ tr"
    have ev: "called_event tk ty attempt # tl (try_events tk (ty, attempt, out))
        = try_events tk (ty, attempt, out)"
      by (simp add: try_events_def)
    have "trace s' = trace s @ ?tr"
      by (simp add: ih(1) t3)
    moreover have tries: "tries_of ?tr = (ty, attempt, out) # tries_of tr"
      using px by simp
    moreover have "events_of ?tr = try_events tk (ty, attempt, out) @ events_of tr"
      using px ev by simp
    moreover have "gates_of ?tr = []" "statuses_of ?tr = [Completed]"
      using px ih by simp_all
    ultimately show ?thesis
      using ih lost(4)
      by (intro exI [of _ ?tr] exI [of _ u]) (simp add: add.commute add.left_commute)
  qed
qed

lemma probe_trace: "probe ty ex s = (Inr b, s1) \<Longrightarrow> trace s1 = trace s @ [Probed ty b]"
  by (cases rule: probe_cases [of ty ex s]) simp_all


lemma executor_iteration
  [consumes 1, case_names unregistered unavailable exhausted returned threw]:
  assumes acc: "sink_accepts d"
    and unregistered: "map_of (executors d) ty = None \<Longrightarrow>
      executor_loop d (ty # rest) tk n le s =
        executor_loop d rest tk n le (emit (Console (NotRegistered ty)) s) \<Longrightarrow> P"
    and unavailable: "\<And>ex s1. map_of (executors d) ty = Some ex \<Longrightarrow>
      probe ty ex s = (Inr False, s1) \<Longrightarrow> trace s1 = trace s @ [Probed ty False] \<Longrightarrow>
      executor_loop d (ty # rest) tk n le s =
        executor_loop d rest tk n le (emit (Console (NotAvailable ty)) s1) \<Longrightarrow> P"
    and exhausted: "\<And>ex s1 n1 le1 tk1 s2. map_of (executors d) ty = Some ex \<Longrightarrow>
      probe ty ex s = (Inr True, s1) \<Longrightarrow> trace s1 = trace s @ [Probed ty True] \<Longrightarrow>
      retry_loop d ty ex 1 tk n le s1 = (Inr (Continue n1 le1 tk1), s2) \<Longrightarrow>
      executor_loop d (ty # rest) tk n le s = executor_loop d rest tk1 n1 le1 s2 \<Longrightarrow> P"
    and returned: "\<And>ex s1 r s2. map_of (executors d) ty = Some ex \<Longrightarrow>
      probe ty ex s = (Inr True, s1) \<Longrightarrow> trace s1 = trace s @ [Probed ty True] \<Longrightarrow>
      retry_loop d ty ex 1 tk n le s1 = (Inr (Return r), s2) \<Longrightarrow>
      executor_loop d (ty # rest) tk n le s = (Inr (Return r), s2) \<Longrightarrow> P"
    and threw: "\<And>ex msg s1. map_of (executors d) ty = Some ex \<Longrightarrow>
      probe ty ex s = (Inl msg, s1) \<Longrightarrow> trace s1 = trace s @ [ProbeThrew ty msg] \<Longrightarrow>
      executor_loop d (ty # rest) tk n le s = (Inl msg, s1) \<Longrightarrow> P"
  shows P
proof (cases "map_of (executors d) ty")
  case None
  then show ?thesis by (intro unregistered) simp_all
next
  case (Some ex)
  show ?thesis
  proof (cases rule: probe_cases [of ty ex s])
    case (threw msg s1)
    with Some show ?thesis by (intro assms(6) [of ex msg s1]) simp_all
  next
  case (answered available s1)
  note p = answered(1) and t1 = answered(2)
  show ?thesis
  proof (cases available)
    case False
    with Some p t1 show ?thesis by (intro unavailable [of ex s1]) simp_all
  next
    case True
    obtain x s2 where r: "retry_loop d ty ex 1 tk n le s1 = (Inr x, s2)"
      using retry_loop_returns [OF acc, of ty ex 1 tk n le s1] by (auto simp: not_isl_fst_eq)
    show ?thesis
    proof (cases x)
      case (Return r')
      with Some p t1 True r show ?thesis by (intro returned [of ex s1 r' s2]) simp_all
    next
      case (Continue n1 le1 tk1)
      with Some p t1 True r show ?thesis by (intro exhausted [of ex s1 n1 le1 tk1 s2]) simp_all
    qed
  qed
  qed
qed

lemma executor_loop_continue:
  assumes acc: "sink_accepts d"
  shows "executor_loop d order tk n le s = (Inr (Continue n' le' tk'), s') \<Longrightarrow>
    \<exists>tr. trace s' = trace s @ tr \<and> tk' = tk \<and> statuses_of tr = [] \<and>
      map fst (gates_of tr) = order \<and>
      events_of tr = concat (map (try_events tk) (tries_of tr)) \<and>
      (\<forall>t\<in>set (tries_of tr). \<not> succeeded (snd (snd t))) \<and>
      int (length (tries_of tr)) =
        max 0 (retryAttempts (options d)) * int (length (filter snd (gates_of tr))) \<and>
      n' = n + int (length (tries_of tr)) \<and>
      le' = (if tries_of tr = [] then le else try_error (snd (snd (last (tries_of tr)))))"
proof (induction order arbitrary: tk n le s)
  case Nil
  then show ?case by simp
next
  case (Cons ty rest)
  from acc show ?case
  proof (cases rule: executor_iteration [where ty = ty and rest = rest and tk = tk and n = n
        and le = le and s = s])
    case unregistered
    from Cons.IH [OF Cons.prems [unfolded unregistered(2)]]
    obtain tr where ih: "trace s' = trace (emit (Console (NotRegistered ty)) s) @ tr" "tk' = tk"
      "statuses_of tr = []" "map fst (gates_of tr) = rest"
      "events_of tr = concat (map (try_events tk) (tries_of tr))"
      "\<forall>t\<in>set (tries_of tr). \<not> succeeded (snd (snd t))"
      "int (length (tries_of tr)) = max 0 (retryAttempts (options d)) * int (length (filter snd (gates_of tr)))"
      "n' = n + int (length (tries_of tr))"
      "le' = (if tries_of tr = [] then le else try_error (snd (snd (last (tries_of tr)))))"
      by blast
    show ?thesis
      using ih by (intro exI [of _ "Console (NotRegistered ty) # tr"]) simp
  next
    case (unavailable ex s1)
    from Cons.IH [OF Cons.prems [unfolded unavailable(4)]]
    obtain tr where ih: "trace s' = trace (emit (Console (NotAvailable ty)) s1) @ tr" "tk' = tk"
      "statuses_of tr = []" "map fst (gates_of tr) = rest"
      "events_of tr = concat (map (try_events tk) (tries_of tr))"
      "\<forall>t\<in>set (tries_of tr). \<not> succeeded (snd (snd t))"
      "int (length (tries_of tr)) = max 0 (retryAttempts (options d)) * int (length (filter snd (gates_of tr)))"
      "n' = n + int (length (tries_of tr))"
      "le' = (if tries_of tr = [] then le else try_error (snd (snd (last (tries_of tr)))))"
      by blast
    show ?thesis
      using ih unavailable(3)
      by (intro exI [of _ "Probed ty False # Console (NotAvailable ty) # tr"]) simp
  next
    case (exhausted ex s1 n1 le1 tk1 s2)
    from retry_loop_continue [OF acc exhausted(4)]
    obtain tr1 where r: "trace s2 = trace s1 @ tr1" "tk1 = tk" "gates_of tr1 = []"
      "statuses_of tr1 = []" "events_of tr1 = concat (map (try_events tk) (tries_of tr1))"
      "\<forall>t\<in>set (tries_of tr1). fst t = ty \<and> \<not> succeeded (snd (snd t))"
      "int (length (tries_of tr1)) = max 0 (retryAttempts (options d) + 1 - 1)"
      "n1 = n + int (length (tries_of tr1))"
      "le1 = (if tries_of tr1 = [] then le else try_error (snd (snd (last (tries_of tr1)))))"
      by blast
    from Cons.IH [OF Cons.prems [unfolded exhausted(5)]]
    obtain tr where ih: "trace s' = trace s2 @ tr" "tk' = tk1"
      "statuses_of tr = []" "map fst (gates_of tr) = rest"
      "events_of tr = concat (map (try_events tk1) (tries_of tr))"
      "\<forall>t\<in>set (tries_of tr). \<not> succeeded (snd (snd t))"
      "int (length (tries_of tr)) = max 0 (retryAttempts (options d)) * int (length (filter snd (gates_of tr)))"
      "n' = n1 + int (length (tries_of tr))"
      "le' = (if tries_of tr = [] then le1 else try_error (snd (snd (last (tries_of tr)))))"
      by blast
    let ?tr = "Probed ty True # tr1 @ tr"
    have len: "int (length (tries_of tr1)) = max 0 (retryAttempts (options d))"
      using r(7) by simp
    have "trace s' = trace s @ ?tr"
      using ih(1) r(1) exhausted(3) by simp
    moreover have "int (length (tries_of ?tr)) =
        max 0 (retryAttempts (options d)) * int (length (filter snd (gates_of ?tr)))"
      using ih(7) len r(3) by (simp add: algebra_simps)
    moreover have "le' = (if tries_of ?tr = [] then le else try_error (snd (snd (last (tries_of ?tr)))))"
      using ih(9) r(9) by simp
    moreover have "events_of ?tr = concat (map (try_events tk) (tries_of ?tr))"
      using ih(5) r(5) r(2) by simp
    moreover have "\<forall>t\<in>set (tries_of ?tr). \<not> succeeded (snd (snd t))"
      using ih(6) r(6) by auto
    moreover have "map fst (gates_of ?tr) = ty # rest" "statuses_of ?tr = []"
      "n' = n + int (length (tries_of ?tr))" "tk' = tk"
      using ih r by simp_all
    ultimately show ?thesis by (intro exI [of _ ?tr] conjI)
  next
    case (returned ex s1 r s2)
    with Cons.prems show ?thesis by simp
  next
    case (threw ex msg s1)
    with Cons.prems show ?thesis by simp
  qed
qed

lemma executor_loop_return:
  assumes acc: "sink_accepts d"
  shows "executor_loop d order tk n le s = (Inr (Return r), s') \<Longrightarrow>
    \<exists>tr u. trace s' = trace s @ tr \<and> task r = tk\<lparr>status := Completed, updatedAt := u\<rparr> \<and>
      statuses_of tr = [Completed] \<and> gates_of tr \<noteq> [] \<and>
      length (gates_of tr) \<le> length order \<and>
      map fst (gates_of tr) = take (length (gates_of tr)) order \<and>
      snd (last (gates_of tr)) \<and> tries_of tr \<noteq> [] \<and> success (result r) \<and>
      (\<exists>j. last (tries_of tr) = (fst (last (gates_of tr)), j, Inr (result r)) \<and>
           1 \<le> j \<and> j \<le> retryAttempts (options d) \<and>
           attempts r = n + max 0 (retryAttempts (options d)) *
             int (length (filter snd (butlast (gates_of tr)))) + j) \<and>
      (\<forall>t\<in>set (butlast (tries_of tr)). \<not> succeeded (snd (snd t))) \<and>
      attempts r = n + int (length (tries_of tr)) \<and>
      events_of tr = concat (map (try_events tk) (tries_of tr)) @
        [completed_event tk (fst (last (gates_of tr))) (attempts r)] \<and>
      (\<exists>ex w. map_of (executors d) (fst (last (gates_of tr))) = Some ex \<and>
          fst (execute ex tk w) = Inr (result r))"
proof (induction order arbitrary: tk n le s)
  case Nil
  then show ?case by simp
next
  case (Cons ty rest)
  let ?R = "retryAttempts (options d)"
  let ?P = "\<lambda>tk n s order tr u. trace s' = trace s @ tr \<and>
      task r = tk\<lparr>status := Completed, updatedAt := u\<rparr> \<and>
      statuses_of tr = [Completed] \<and> gates_of tr \<noteq> [] \<and>
      length (gates_of tr) \<le> length order \<and>
      map fst (gates_of tr) = take (length (gates_of tr)) order \<and>
      snd (last (gates_of tr)) \<and> tries_of tr \<noteq> [] \<and> success (result r) \<and>
      (\<exists>j. last (tries_of tr) = (fst (last (gates_of tr)), j, Inr (result r)) \<and>
           1 \<le> j \<and> j \<le> ?R \<and>
           attempts r = n + max 0 ?R * int (length (filter snd (butlast (gates_of tr)))) + j) \<and>
      (\<forall>t\<in>set (butlast (tries_of tr)). \<not> succeeded (snd (snd t))) \<and>
      attempts r = n + int (length (tries_of tr)) \<and>
      events_of tr = concat (map (try_events tk) (tries_of tr)) @
        [completed_event tk (fst (last (gates_of tr))) (attempts r)] \<and>
      (\<exists>ex w. map_of (executors d) (fst (last (gates_of tr))) = Some ex \<and>
          fst (execute ex tk w) = Inr (result r))"
  have skip: "?P tk n s (ty # rest) (pre @ tr) u"
    if pre: "trace s0 = trace s @ pre" "gates_of pre = [(ty, False)]" "tries_of pre = []"
      "events_of pre = []" "statuses_of pre = []"
      and ih: "?P tk n s0 rest tr u" for pre s0 tr u
  proof -
    obtain j where j: "last (tries_of tr) = (fst (last (gates_of tr)), j, Inr (result r))"
      "1 \<le> j" "j \<le> ?R"
      "attempts r = n + max 0 ?R * int (length (filter snd (butlast (gates_of tr)))) + j"
      using ih by blast
    have g: "gates_of (pre @ tr) = (ty, False) # gates_of tr"
      using pre by simp
    have t: "tries_of (pre @ tr) = tries_of tr"
      using pre by simp
    have "last (tries_of (pre @ tr)) = (fst (last (gates_of (pre @ tr))), j, Inr (result r)) \<and>
        1 \<le> j \<and> j \<le> ?R \<and>
        attempts r = n + max 0 ?R * int (length (filter snd (butlast (gates_of (pre @ tr))))) + j"
      using j ih pre by simp
    then have a: "\<exists>j. last (tries_of (pre @ tr)) = (fst (last (gates_of (pre @ tr))), j, Inr (result r)) \<and>
        1 \<le> j \<and> j \<le> ?R \<and>
        attempts r = n + max 0 ?R * int (length (filter snd (butlast (gates_of (pre @ tr))))) + j"
      by blast
    have e: "\<exists>ex w. map_of (executors d) (fst (last (gates_of (pre @ tr)))) = Some ex \<and>
          fst (execute ex tk w) = Inr (result r)"
      using ih pre by simp
    have f: "trace s' = trace s @ pre @ tr" "task r = tk\<lparr>status := Completed, updatedAt := u\<rparr>"
      "statuses_of (pre @ tr) = [Completed]" "gates_of (pre @ tr) \<noteq> []"
      "length (gates_of (pre @ tr)) \<le> length (ty # rest)"
      "map fst (gates_of (pre @ tr)) = take (length (gates_of (pre @ tr))) (ty # rest)"
      "snd (last (gates_of (pre @ tr)))" "tries_of (pre @ tr) \<noteq> []" "success (result r)"
      "\<forall>t\<in>set (butlast (tries_of (pre @ tr))). \<not> succeeded (snd (snd t))"
      "attempts r = n + int (length (tries_of (pre @ tr)))"
      "events_of (pre @ tr) = concat (map (try_events tk) (tries_of (pre @ tr))) @
        [completed_event tk (fst (last (gates_of (pre @ tr)))) (attempts r)]"
      using ih pre by simp_all
    from f a e show ?thesis
      by (intro conjI)
  qed
  from acc show ?case
  proof (cases rule: executor_iteration [where ty = ty and rest = rest and tk = tk and n = n
        and le = le and s = s])
    case unregistered
    from Cons.IH [OF Cons.prems [unfolded unregistered(2)]]
    obtain tr u where ih: "?P tk n (emit (Console (NotRegistered ty)) s) rest tr u"
      by blast
    have "?P tk n s (ty # rest) ([Console (NotRegistered ty)] @ tr) u"
      by (rule skip [OF _ _ _ _ _ ih]) simp_all
    then show ?thesis by blast
  next
    case (unavailable ex s1)
    from Cons.IH [OF Cons.prems [unfolded unavailable(4)]]
    obtain tr u where ih: "?P tk n (emit (Console (NotAvailable ty)) s1) rest tr u"
      by blast
    have "?P tk n s (ty # rest) ([Probed ty False, Console (NotAvailable ty)] @ tr) u"
      by (rule skip [OF _ _ _ _ _ ih]) (simp_all add: unavailable(3))
    then show ?thesis by blast
  next
    case (exhausted ex s1 n1 le1 tk1 s2)
    from retry_loop_continue [OF acc exhausted(4)]
    obtain tr1 where r: "trace s2 = trace s1 @ tr1" "tk1 = tk" "gates_of tr1 = []"
      "statuses_of tr1 = []" "events_of tr1 = concat (map (try_events tk) (tries_of tr1))"
      "\<forall>t\<in>set (tries_of tr1). fst t = ty \<and> \<not> succeeded (snd (snd t))"
      "int (length (tries_of tr1)) = max 0 (?R + 1 - 1)"
      "n1 = n + int (length (tries_of tr1))"
      by blast
    from Cons.IH [OF Cons.prems [unfolded exhausted(5)]]
    obtain tr u where ih: "?P tk1 n1 s2 rest tr u"
      by blast
    let ?tr = "Probed ty True # tr1 @ tr"
    have len: "int (length (tries_of tr1)) = max 0 ?R"
      using r(7) by simp
    obtain j where j: "last (tries_of tr) = (fst (last (gates_of tr)), j, Inr (result r))"
      "1 \<le> j" "j \<le> ?R"
      "attempts r = n1 + max 0 ?R * int (length (filter snd (butlast (gates_of tr)))) + j"
      using ih by blast
    have g: "gates_of ?tr = (ty, True) # gates_of tr"
      using r(3) by simp
    have t: "tries_of ?tr = tries_of tr1 @ tries_of tr"
      by simp
    have "last (tries_of ?tr) = (fst (last (gates_of ?tr)), j, Inr (result r)) \<and>
        1 \<le> j \<and> j \<le> ?R \<and>
        attempts r = n + max 0 ?R * int (length (filter snd (butlast (gates_of ?tr)))) + j"
      using j ih r(8) len r(3) by (simp add: algebra_simps)
    then have a: "\<exists>j. last (tries_of ?tr) = (fst (last (gates_of ?tr)), j, Inr (result r)) \<and>
        1 \<le> j \<and> j \<le> ?R \<and>
        attempts r = n + max 0 ?R * int (length (filter snd (butlast (gates_of ?tr)))) + j"
      by blast
    have b: "\<forall>t\<in>set (butlast (tries_of ?tr)). \<not> succeeded (snd (snd t))"
      using ih r(6) by (auto simp: t butlast_append)
    have c: "events_of ?tr = concat (map (try_events tk) (tries_of ?tr)) @
        [completed_event tk (fst (last (gates_of ?tr))) (attempts r)]"
      using ih r(5) r(2) r(3) by simp
    have e: "\<exists>ex w. map_of (executors d) (fst (last (gates_of ?tr))) = Some ex \<and>
          fst (execute ex tk w) = Inr (result r)"
      using ih r(2) r(3) by simp
    have f: "trace s' = trace s @ ?tr" "task r = tk\<lparr>status := Completed, updatedAt := u\<rparr>"
      "statuses_of ?tr = [Completed]" "gates_of ?tr \<noteq> []"
      "length (gates_of ?tr) \<le> length (ty # rest)"
      "map fst (gates_of ?tr) = take (length (gates_of ?tr)) (ty # rest)"
      "snd (last (gates_of ?tr))" "tries_of ?tr \<noteq> []" "success (result r)"
      "attempts r = n + int (length (tries_of ?tr))"
      using ih r exhausted(3) by simp_all
    from f a b c e have "?P tk n s (ty # rest) ?tr u"
      by (intro conjI)
    then show ?thesis by blast
  next
    case (returned ex s1 r1 s2)
    from returned(5) Cons.prems have eq: "r1 = r" "s2 = s'" by simp_all
    from retry_loop_return [OF acc returned(4) [unfolded eq]]
    obtain tr u where r: "trace s' = trace s1 @ tr"
      "task r = tk\<lparr>status := Completed, updatedAt := u\<rparr>"
      "gates_of tr = []" "statuses_of tr = [Completed]" "tries_of tr \<noteq> []"
      "last (tries_of tr) = (ty, 1 + int (length (tries_of tr)) - 1, Inr (result r))"
      "success (result r)"
      "\<forall>t\<in>set (butlast (tries_of tr)). fst t = ty \<and> \<not> succeeded (snd (snd t))"
      "1 + int (length (tries_of tr)) - 1 \<le> ?R"
      "attempts r = n + int (length (tries_of tr))"
      "events_of tr = concat (map (try_events tk) (tries_of tr)) @ [completed_event tk ty (attempts r)]"
      "\<exists>w. fst (execute ex tk w) = Inr (result r)"
      by blast
    let ?tr = "Probed ty True # tr"
    have g: "gates_of ?tr = [(ty, True)]"
      using r(3) by simp
    have "last (tries_of ?tr) = (fst (last (gates_of ?tr)), int (length (tries_of tr)), Inr (result r)) \<and>
        1 \<le> int (length (tries_of tr)) \<and> int (length (tries_of tr)) \<le> ?R \<and>
        attempts r = n + max 0 ?R * int (length (filter snd (butlast (gates_of ?tr)))) + int (length (tries_of tr))"
      using r by (cases "tries_of tr") simp_all
    then have a: "\<exists>j. last (tries_of ?tr) = (fst (last (gates_of ?tr)), j, Inr (result r)) \<and>
        1 \<le> j \<and> j \<le> ?R \<and>
        attempts r = n + max 0 ?R * int (length (filter snd (butlast (gates_of ?tr)))) + j"
      by blast
    have e: "\<exists>ex w. map_of (executors d) (fst (last (gates_of ?tr))) = Some ex \<and>
          fst (execute ex tk w) = Inr (result r)"
      using r(12) returned(1) r(3) by simp
    have f: "trace s' = trace s @ ?tr" "task r = tk\<lparr>status := Completed, updatedAt := u\<rparr>"
      "statuses_of ?tr = [Completed]" "gates_of ?tr \<noteq> []"
      "length (gates_of ?tr) \<le> length (ty # rest)"
      "map fst (gates_of ?tr) = take (length (gates_of ?tr)) (ty # rest)"
      "snd (last (gates_of ?tr))" "tries_of ?tr \<noteq> []" "success (result r)"
      "\<forall>t\<in>set (butlast (tries_of ?tr)). \<not> succeeded (snd (snd t))"
      "attempts r = n + int (length (tries_of ?tr))"
      "events_of ?tr = concat (map (try_events tk) (tries_of ?tr)) @
        [completed_event tk (fst (last (gates_of ?tr))) (attempts r)]"
      using r returned(3) by simp_all
    from f a e have "?P tk n s (ty # rest) ?tr u"
      by (intro conjI)
    then show ?thesis by blast
  next
    case (threw ex msg s1)
    with Cons.prems show ?thesis by simp
  qed
qed

lemma started_event_frame [simp]:
  "started_event (tk\<lparr>status := st, updatedAt := u\<rparr>) = started_event tk"
  by (simp add: started_event_def)

lemma failed_event_frame [simp]:
  "failed_event (tk\<lparr>status := st, updatedAt := u\<rparr>) e n = failed_event tk e n"
  by (simp add: failed_event_def)

lemma try_events_frame [simp]:
  "try_events (tk\<lparr>status := st, updatedAt := u\<rparr>) = try_events tk"
  by (rule ext) (simp add: try_events_def called_event_def responded_event_def split: prod.splits sum.splits)

lemma getExecutorOrder_frame [simp]:
  "getExecutorOrder d (tk\<lparr>status := st, updatedAt := u\<rparr>) = getExecutorOrder d tk"
  by (simp add: getExecutorOrder_def split: option.splits list.splits)

lemma failureResult_frame [simp]:
  "failureResult (tk\<lparr>status := st, updatedAt := u\<rparr>) le = failureResult tk le"
  by (simp add: failureResult_def)

lemma dispatch_trace_eq:
  "dispatch d tk s = (x, s') \<Longrightarrow> trace s' = trace s @ tr \<Longrightarrow> dispatch_trace d tk s = tr"
  by (simp add: dispatch_trace_def)

lemma dispatch_cases [consumes 2, case_names completed failed]:
  assumes acc: "sink_accepts d"
    and disp: "dispatch d tk s = (Inr r, s')"
    and completed: "\<And>u tr. success (result r) \<Longrightarrow>
      task r = tk\<lparr>status := Completed, updatedAt := u\<rparr> \<Longrightarrow>
      dispatch_trace d tk s = StatusSet Running # Logged (started_event tk) # tr \<Longrightarrow>
      statuses_of tr = [Completed] \<Longrightarrow> gates_of tr \<noteq> [] \<Longrightarrow>
      length (gates_of tr) \<le> length (getExecutorOrder d tk) \<Longrightarrow>
      map fst (gates_of tr) = take (length (gates_of tr)) (getExecutorOrder d tk) \<Longrightarrow>
      snd (last (gates_of tr)) \<Longrightarrow> tries_of tr \<noteq> [] \<Longrightarrow>
      (\<exists>j. last (tries_of tr) = (fst (last (gates_of tr)), j, Inr (result r)) \<and>
           1 \<le> j \<and> j \<le> retryAttempts (options d) \<and>
           attempts r = max 0 (retryAttempts (options d)) *
             int (length (filter snd (butlast (gates_of tr)))) + j) \<Longrightarrow>
      (\<forall>t\<in>set (butlast (tries_of tr)). \<not> succeeded (snd (snd t))) \<Longrightarrow>
      attempts r = int (length (tries_of tr)) \<Longrightarrow>
      events_of tr = concat (map (try_events tk) (tries_of tr)) @
        [completed_event tk (fst (last (gates_of tr))) (attempts r)] \<Longrightarrow>
      (\<exists>ex tk' w. map_of (executors d) (fst (last (gates_of tr))) = Some ex \<and>
          fst (execute ex tk' w) = Inr (result r)) \<Longrightarrow> P"
    and failed: "\<And>u tr. \<not> success (result r) \<Longrightarrow>
      task r = tk\<lparr>status := Failed, updatedAt := u\<rparr> \<Longrightarrow>
      result r = failureResult tk (last_error (tries_of tr)) \<Longrightarrow>
      dispatch_trace d tk s = StatusSet Running # Logged (started_event tk) # tr \<Longrightarrow>
      statuses_of tr = [Failed] \<Longrightarrow>
      map fst (gates_of tr) = getExecutorOrder d tk \<Longrightarrow>
      (\<forall>t\<in>set (tries_of tr). \<not> succeeded (snd (snd t))) \<Longrightarrow>
      int (length (tries_of tr)) =
        max 0 (retryAttempts (options d)) * int (length (filter snd (gates_of tr))) \<Longrightarrow>
      attempts r = int (length (tries_of tr)) \<Longrightarrow>
      events_of tr = concat (map (try_events tk) (tries_of tr)) @
        [failed_event tk (error (result r)) (attempts r)] \<Longrightarrow> P"
  shows P
proof -
  define tk1 where "tk1 = tk\<lparr>status := Running, updatedAt := now (host d) (world s)\<rparr>"
  define s0 where "s0 = emit (StatusSet Running) s"
  obtain eid s1 where l: "log_event d (started_event tk1) s0 = (Inr eid, s1)"
    and t1: "trace s1 = trace s0 @ [Logged (started_event tk1)]"
    by (rule log_event_accepted_trace [OF acc])
  have t1': "trace s1 = trace s @ [StatusSet Running, Logged (started_event tk)]"
    using t1 by (simp add: s0_def tk1_def)
  obtain z s2 where lp0: "executor_loop d (getExecutorOrder d tk1) tk1 0 None s1 = (z, s2)"
    by force
  have "\<exists>x. z = Inr x"
  proof (cases z)
    case (Inl err)
    with disp l lp0 show ?thesis
      by (simp add: dispatch_def set_status_def tk1_def s0_def)
  qed simp
  then obtain x where lp: "executor_loop d (getExecutorOrder d tk1) tk1 0 None s1 = (Inr x, s2)"
    using lp0 by blast
  have ord: "getExecutorOrder d tk1 = getExecutorOrder d tk"
    by (simp add: tk1_def)
  show ?thesis
  proof (cases x)
    case (Return r1)
    have eq: "r1 = r" "s2 = s'"
      using disp l lp Return by (simp_all add: dispatch_def set_status_def tk1_def s0_def)
    from executor_loop_return [OF acc lp [unfolded Return eq]]
    obtain tr u where f: "trace s' = trace s1 @ tr"
      "task r = tk1\<lparr>status := Completed, updatedAt := u\<rparr>"
      "statuses_of tr = [Completed]" "gates_of tr \<noteq> []"
      "length (gates_of tr) \<le> length (getExecutorOrder d tk1)"
      "map fst (gates_of tr) = take (length (gates_of tr)) (getExecutorOrder d tk1)"
      "snd (last (gates_of tr))" "tries_of tr \<noteq> []" "success (result r)"
      "\<exists>j. last (tries_of tr) = (fst (last (gates_of tr)), j, Inr (result r)) \<and>
           1 \<le> j \<and> j \<le> retryAttempts (options d) \<and>
           attempts r = 0 + max 0 (retryAttempts (options d)) *
             int (length (filter snd (butlast (gates_of tr)))) + j"
      "\<forall>t\<in>set (butlast (tries_of tr)). \<not> succeeded (snd (snd t))"
      "attempts r = 0 + int (length (tries_of tr))"
      "events_of tr = concat (map (try_events tk1) (tries_of tr)) @
        [completed_event tk1 (fst (last (gates_of tr))) (attempts r)]"
      "\<exists>ex w. map_of (executors d) (fst (last (gates_of tr))) = Some ex \<and>
          fst (execute ex tk1 w) = Inr (result r)"
      by blast
    have tr: "dispatch_trace d tk s = StatusSet Running # Logged (started_event tk) # tr"
      by (rule dispatch_trace_eq [OF disp]) (simp add: f(1) t1')
    show ?thesis
    proof (rule completed [of u tr])
      show "task r = tk\<lparr>status := Completed, updatedAt := u\<rparr>"
        using f(2) by (simp add: tk1_def)
      show "\<exists>ex tk' w. map_of (executors d) (fst (last (gates_of tr))) = Some ex \<and>
          fst (execute ex tk' w) = Inr (result r)"
        using f(14) by blast
    qed (use f tr ord in \<open>simp_all add: tk1_def\<close>)
  next
    case (Continue n le tk')
    from executor_loop_continue [OF acc lp [unfolded Continue]]
    obtain tr where f: "trace s2 = trace s1 @ tr" "tk' = tk1" "statuses_of tr = []"
      "map fst (gates_of tr) = getExecutorOrder d tk1"
      "events_of tr = concat (map (try_events tk1) (tries_of tr))"
      "\<forall>t\<in>set (tries_of tr). \<not> succeeded (snd (snd t))"
      "int (length (tries_of tr)) =
        max 0 (retryAttempts (options d)) * int (length (filter snd (gates_of tr)))"
      "n = 0 + int (length (tries_of tr))"
      "le = (if tries_of tr = [] then None else try_error (snd (snd (last (tries_of tr)))))"
      by blast
    define tk2 where "tk2 = tk1\<lparr>status := Failed, updatedAt := now (host d) (world s2)\<rparr>"
    define s3 where "s3 = emit (StatusSet Failed) s2"
    obtain eid' s4 where l2: "log_event d (failed_event tk2 (error (failureResult tk2 le)) n) s3 = (Inr eid', s4)"
      and t4: "trace s4 = trace s3 @ [Logged (failed_event tk2 (error (failureResult tk2 le)) n)]"
      by (rule log_event_accepted_trace [OF acc])
    have eq: "r = \<lparr>task = tk2, result = failureResult tk2 le, attempts = n\<rparr>" "s' = s4"
      using disp l lp Continue l2 [unfolded tk2_def s3_def] f(2)
      by (simp_all add: dispatch_def set_status_def tk1_def [symmetric] s0_def [symmetric]
          tk2_def)
    let ?tr = "tr @ [StatusSet Failed, Logged (failed_event tk (error (failureResult tk le)) n)]"
    have tr: "dispatch_trace d tk s = StatusSet Running # Logged (started_event tk) # ?tr"
      by (rule dispatch_trace_eq [OF disp])
        (simp add: eq t4 s3_def f(1) t1' tk2_def tk1_def)
    have le: "le = last_error (tries_of ?tr)"
      using f(9) by (simp add: last_error_def)
    show ?thesis
    proof (rule failed [of "now (host d) (world s2)" ?tr])
      show "task r = tk\<lparr>status := Failed, updatedAt := now (host d) (world s2)\<rparr>"
        by (simp add: eq tk2_def tk1_def)
      show "result r = failureResult tk (last_error (tries_of ?tr))"
        using le by (simp add: eq tk2_def tk1_def)
      show "\<not> success (result r)"
        by (simp add: eq failureResult_def)
      show "events_of ?tr = concat (map (try_events tk) (tries_of ?tr)) @
        [failed_event tk (error (result r)) (attempts r)]"
        using f(5) by (simp add: eq tk2_def tk1_def)
    qed (use f tr ord in \<open>simp_all add: eq tk1_def\<close>)
  qed
qed

lemma same_but_status_refl [simp]: "same_but_status tk tk"
  by (simp add: same_but_status_def)

lemma same_but_status_update [simp]:
  "same_but_status tk (tk'\<lparr>status := st, updatedAt := u\<rparr>) = same_but_status tk tk'"
proof
  assume "same_but_status tk (tk'\<lparr>status := st, updatedAt := u\<rparr>)"
  then have "tk'\<lparr>status := st, updatedAt := u\<rparr> = tk\<lparr>status := st, updatedAt := u\<rparr>"
    by (simp add: same_but_status_def)
  then have "tk'\<lparr>status := st, updatedAt := u\<rparr>\<lparr>status := status tk', updatedAt := updatedAt tk'\<rparr>
      = tk\<lparr>status := st, updatedAt := u\<rparr>\<lparr>status := status tk', updatedAt := updatedAt tk'\<rparr>"
    by simp
  then show "same_but_status tk tk'"
    by (simp add: same_but_status_def)
next
  assume "same_but_status tk tk'"
  then have "tk' = tk\<lparr>status := status tk', updatedAt := updatedAt tk'\<rparr>"
    by (simp add: same_but_status_def)
  then have "tk'\<lparr>status := st, updatedAt := u\<rparr>
      = tk\<lparr>status := status tk', updatedAt := updatedAt tk'\<rparr>\<lparr>status := st, updatedAt := u\<rparr>"
    by simp
  then show "same_but_status tk (tk'\<lparr>status := st, updatedAt := u\<rparr>)"
    by (simp add: same_but_status_def)
qed






lemmas run_defs =
  dispatch_def dispatch_trace_def dispatcher_of_def sqlite_store_def full_store_def wall_clock_def
  stub_def always_def task_for_def start_def set_status_def log_event_def probe_def
  call_execute_def caught_def try_once_def delay_def emit_def getExecutorOrder_def
  no_completions_store_def
  failureResult_def started_event_def called_event_def responded_event_def completed_event_def
  failed_event_def ok_result_def failed_result_def retry_loop.simps


lemma sink_accepts_sqlite [simp]: "sink_accepts (dispatcher_of exs sqlite_store r ms)"
  by (simp add: sink_accepts_def dispatcher_of_def sqlite_store_def)

lemma probe_settles_stub [simp]: "probe_settles (stub ty (Resolves b) outcome)"
  by (simp add: probe_settles_def stub_def)

lemma probes_settle_registry:
  "\<forall>p\<in>set exs. probe_settles (snd p) \<Longrightarrow> probes_settle (dispatcher_of exs store r ms) order"
  by (auto simp: probes_settle_def dispatcher_of_def dest!: map_of_SomeD)








lemma getExecutorOrder_empty:
  "getExecutorOrder d tk = [] \<Longrightarrow> preferredExecutor tk = None"
  by (auto simp: getExecutorOrder_def split: option.splits list.splits)

text \<open>
  C1, as stated, fails: the dispatcher has no plan error. With no fallback list, no
  preferred executor and an empty registry the order is empty; \<^verbatim>\<open>task_started\<close> is
  logged before the order is looked at, the loop body never runs, and the dispatch returns
  the "All executors failed" result with 0 attempts after logging \<^verbatim>\<open>task_failed\<close>.
\<close>

theorem C1_empty_order_counterexample:
  "getExecutorOrder no_executors (task_for None None) = []
   \<and> fst (dispatch no_executors (task_for None None) start) =
       Inr \<lparr>task = (task_for None None)\<lparr>status := Failed, updatedAt := 1000\<rparr>,
            result = \<lparr>executor = sonnet, success = False, content = [], usage = None,
                      error = Some ''All executors failed'', durationMs = 0\<rparr>,
            attempts = 0\<rparr>
   \<and> map kind (events_of (dispatch_trace no_executors (task_for None None) start)) =
       [task_started, task_failed]
   \<and> map kind (rows (world (snd (dispatch no_executors (task_for None None) start)))) =
       [task_started, task_failed]"
  by (simp add: no_executors_def run_defs)

text \<open>
  C1, amended: for every task whose executor order is empty, a dispatch over a store that
  accepts its writes raises nothing: it logs \<^verbatim>\<open>task_started\<close> and \<^verbatim>\<open>task_failed\<close>
  and nothing else, and returns the task marked failed with a failure result (executor
  \<^verbatim>\<open>sonnet\<close>, error "All executors failed", duration 0) and 0 attempts.
\<close>

theorem C1_empty_order_returns_failure:
  assumes "getExecutorOrder d tk = []" and "sink_accepts d"
  shows "\<exists>u s'. dispatch d tk s =
      (Inr \<lparr>task = tk\<lparr>status := Failed, updatedAt := u\<rparr>,
            result = \<lparr>executor = sonnet, success = False, content = [], usage = None,
                      error = Some ''All executors failed'', durationMs = 0\<rparr>,
            attempts = 0\<rparr>, s')
    \<and> events_of (dispatch_trace d tk s) =
        [started_event tk, failed_event tk (Some ''All executors failed'') 0]"
proof -
  have "probes_settle d (getExecutorOrder d tk)"
    by (simp add: assms(1) probes_settle_def)
  then obtain r s' where d: "dispatch d tk s = (Inr r, s')"
    using dispatch_returns [OF assms(2), of tk s] by (auto simp: not_isl_fst_eq)
  from assms(2) d show ?thesis
  proof (cases rule: dispatch_cases)
    case (completed u tr)
    with assms(1) show ?thesis by simp
  next
    case (failed u tr)
    from failed(6) assms(1) have g: "gates_of tr = []" by simp
    with failed(8) have t: "tries_of tr = []" by simp
    have res: "result r = \<lparr>executor = sonnet, success = False, content = [], usage = None,
                      error = Some ''All executors failed'', durationMs = 0\<rparr>"
      using failed(3) t getExecutorOrder_empty [OF assms(1)]
      by (simp add: failureResult_def last_error_def)
    have n: "attempts r = 0"
      using failed(9) t by simp
    have r: "r = \<lparr>task = tk\<lparr>status := Failed, updatedAt := u\<rparr>,
            result = \<lparr>executor = sonnet, success = False, content = [], usage = None,
                      error = Some ''All executors failed'', durationMs = 0\<rparr>,
            attempts = 0\<rparr>"
      using failed(2) res n by (cases r) simp
    have "events_of (dispatch_trace d tk s) =
        [started_event tk, failed_event tk (Some ''All executors failed'') 0]"
      using failed(4) failed(10) t res n by simp
    with d r show ?thesis by blast
  qed
qed

theorem C1_empty_order_returns_failure_witness:
  "getExecutorOrder no_executors (task_for None None) = [] \<and> sink_accepts no_executors
   \<and> attempts (projr (fst (dispatch no_executors (task_for None None) start))) = 0
   \<and> events_of (dispatch_trace no_executors (task_for None None) start) =
        [started_event (task_for None None),
         failed_event (task_for None None) (Some ''All executors failed'') 0]"
proof -
  have o: "getExecutorOrder no_executors (task_for None None) = []"
    by (simp add: no_executors_def run_defs)
  have acc: "sink_accepts no_executors"
    by (simp add: no_executors_def)
  from C1_empty_order_returns_failure [OF o acc, of start] o acc show ?thesis
    by auto
qed

text \<open>
  C4, as stated, fails on the backend identifier: the failure result names
  \<^verbatim>\<open>task.preferredExecutor ?? 'sonnet'\<close>. A task with no preferred executor and the
  fallback list \<^verbatim>\<open>['gemini']\<close> has the order \<^verbatim>\<open>['gemini']\<close>; when gemini fails, the
  result names \<^verbatim>\<open>sonnet\<close>, which is neither the first entry of the order nor a
  preferred executor.
\<close>

theorem C4_failure_executor_counterexample:
  "getExecutorOrder failing_gemini (task_for None (Some [gemini])) = [gemini]
   \<and> preferredExecutor (task_for None (Some [gemini])) = None
   \<and> fst (dispatch failing_gemini (task_for None (Some [gemini])) start) =
       Inr \<lparr>task = (task_for None (Some [gemini]))\<lparr>status := Failed, updatedAt := 1000\<rparr>,
            result = \<lparr>executor = sonnet, success = False, content = [], usage = None,
                      error = Some ''quota exceeded'', durationMs = 0\<rparr>,
            attempts = 1\<rparr>"
  by (simp add: failing_gemini_def run_defs)

text \<open>
  C4, amended: for every dispatch (over a store that accepts its writes) in which no try
  succeeds, the result is the synthetic failure whose backend identifier is the task's
  preferred executor, or \<^verbatim>\<open>sonnet\<close> when the task has none; success is false, the
  content is empty, the duration is 0, and the error is the error of the last try (the
  message thrown, or the error of the result returned), or "All executors failed" when
  there was no try or the last try left no error.
\<close>

theorem C4_failure_result:
  assumes "sink_accepts d" and "dispatch d tk s = (Inr r, s')"
    and "\<forall>t\<in>set (tries_of (dispatch_trace d tk s)). \<not> succeeded (snd (snd t))"
  shows "result r =
      \<lparr>executor = (case preferredExecutor tk of Some ty \<Rightarrow> ty | None \<Rightarrow> sonnet),
       success = False, content = [], usage = None,
       error = Some (case last_error (tries_of (dispatch_trace d tk s)) of
                       Some msg \<Rightarrow> msg | None \<Rightarrow> ''All executors failed''),
       durationMs = 0\<rparr>"
  using assms(1,2)
proof (cases rule: dispatch_cases)
  case (completed u tr)
  from completed(10) obtain j where "last (tries_of tr) = (fst (last (gates_of tr)), j, Inr (result r))"
    by blast
  with completed(9) have "(fst (last (gates_of tr)), j, Inr (result r)) \<in> set (tries_of tr)"
    using last_in_set by metis
  with assms(3) completed(1,3) show ?thesis
    by (auto simp: succeeded_def)
next
  case (failed u tr)
  then show ?thesis by (simp add: failureResult_def)
qed

theorem C4_failure_result_witness:
  "sink_accepts failing_gemini
   \<and> \<not> isl (fst (dispatch failing_gemini (task_for None (Some [gemini])) start))
   \<and> tries_of (dispatch_trace failing_gemini (task_for None (Some [gemini])) start) =
       [(gemini, 1, Inr (failed_result gemini ''quota exceeded''))]
   \<and> \<not> succeeded (Inr (failed_result gemini ''quota exceeded''))
   \<and> result (projr (fst (dispatch failing_gemini (task_for None (Some [gemini])) start))) =
       \<lparr>executor = sonnet, success = False, content = [], usage = None,
        error = Some ''quota exceeded'', durationMs = 0\<rparr>"
proof -
  let ?tk = "task_for None (Some [gemini])"
  have acc: "sink_accepts failing_gemini"
    by (simp add: failing_gemini_def)
  have ps: "probes_settle failing_gemini (getExecutorOrder failing_gemini ?tk)"
    unfolding failing_gemini_def by (rule probes_settle_registry) simp
  obtain r s' where d: "dispatch failing_gemini ?tk start = (Inr r, s')"
    using dispatch_returns [OF acc ps, of start] by (auto simp: not_isl_fst_eq)
  have t: "tries_of (dispatch_trace failing_gemini ?tk start) =
       [(gemini, 1, Inr (failed_result gemini ''quota exceeded''))]"
    by (simp add: failing_gemini_def run_defs)
  have ns: "\<not> succeeded (Inr (failed_result gemini ''quota exceeded''))"
    by (simp add: succeeded_def failed_result_def)
  have "\<forall>t\<in>set (tries_of (dispatch_trace failing_gemini ?tk start)). \<not> succeeded (snd (snd t))"
    using ns by (simp add: t)
  moreover have p: "preferredExecutor ?tk = None"
    by (simp add: task_for_def)
  ultimately have "result r = \<lparr>executor = sonnet, success = False, content = [], usage = None,
        error = Some ''quota exceeded'', durationMs = 0\<rparr>"
    using C4_failure_result [OF acc d]
    by (simp add: t last_error_def try_error_def failed_result_def)
  with acc d t ns show ?thesis by simp
qed




lemma kind_try_events:
  "e \<in> set (try_events tk t) \<Longrightarrow> kind e = executor_called \<or> kind e = executor_responded"
  by (auto simp: try_events_def called_event_def responded_event_def split: prod.splits sum.splits)

lemma no_terminal_try_events: "filter is_terminal (concat (map (try_events tk) ts)) = []"
  by (auto simp: filter_empty_conv is_terminal_def dest!: kind_try_events)

lemma calls_answered_skip:
  "kind e \<noteq> executor_called \<Longrightarrow> es \<noteq> [] \<Longrightarrow> calls_answered (e # es) = calls_answered es"
  by (cases es) simp_all

lemma hd_tries_not_response:
  "kind fin \<noteq> executor_responded \<Longrightarrow>
   kind (hd (concat (map (try_events tk) ts) @ [fin])) \<noteq> executor_responded"
  by (cases ts) (auto simp: try_events_def called_event_def split: prod.splits)

lemma calls_answered_tries:
  assumes "kind fin \<noteq> executor_called" "kind fin \<noteq> executor_responded"
  shows "calls_answered (concat (map (try_events tk) ts) @ [fin]) =
    (\<forall>t\<in>set ts. \<not> isl (snd (snd t)))"
proof (induction ts)
  case Nil
  from assms show ?case by simp
next
  case (Cons t ts)
  obtain ty a out where t: "t = (ty, a, out)" by (cases t)
  let ?rest = "concat (map (try_events tk) ts) @ [fin]"
  obtain e es where r: "?rest = e # es" by (cases ?rest) simp_all
  have h: "kind e \<noteq> executor_responded"
    using hd_tries_not_response [OF assms(2), of tk ts] r by simp
  show ?case
  proof (cases out)
    case (Inl msg)
    have "concat (map (try_events tk) (t # ts)) @ [fin] = called_event tk ty a # e # es"
      using r by (simp add: t Inl try_events_def)
    then show ?thesis
      using h by (simp add: t Inl called_event_def)
  next
    case (Inr res)
    have "concat (map (try_events tk) (t # ts)) @ [fin] =
        called_event tk ty a # responded_event tk ty res # e # es"
      using r by (simp add: t Inr try_events_def)
    then show ?thesis
      using Cons.IH r by (simp add: t Inr called_event_def responded_event_def)
  qed
qed

text \<open>
  C2, as stated, fails where it says "including when the executor's execute call
  throws": the \<^verbatim>\<open>executor_responded\<close> write is inside the \<^verbatim>\<open>try\<close>, after the call, so a
  throw skips it. With one backend that throws and one try, the history is
  \<^verbatim>\<open>task_started\<close>, \<^verbatim>\<open>executor_called\<close>, \<^verbatim>\<open>task_failed\<close>.
\<close>

theorem C2_thrown_call_counterexample:
  "tries_of (dispatch_trace throwing_codex (task_for (Some codex) None) start) =
     [(codex, 1, Inl ''socket hang up'')]
   \<and> map kind (events_of (dispatch_trace throwing_codex (task_for (Some codex) None) start)) =
     [task_started, executor_called, task_failed]
   \<and> \<not> calls_answered (events_of (dispatch_trace throwing_codex (task_for (Some codex) None) start))
   \<and> \<not> well_formed_history
         (events_of (dispatch_trace throwing_codex (task_for (Some codex) None) start))"
  by (simp add: throwing_codex_def run_defs well_formed_history_def)

text \<open>
  C2, amended: for every dispatch that returns, over a store that accepts its writes, the
  events logged are \<^verbatim>\<open>task_started\<close>, then for every try its \<^verbatim>\<open>executor_called\<close>
  followed, if \<^verbatim>\<open>execute\<close> returned, by the matching \<^verbatim>\<open>executor_responded\<close> (and by
  nothing if it threw), then one terminal event. So the history starts with
  \<^verbatim>\<open>task_started\<close>, ends with its only terminal event, and every
  \<^verbatim>\<open>executor_called\<close> is immediately followed by its \<^verbatim>\<open>executor_responded\<close> exactly
  when no \<^verbatim>\<open>execute\<close> call threw.
\<close>

theorem C2_event_history:
  assumes "sink_accepts d" and "dispatch d tk s = (Inr r, s')"
  shows "events_of (dispatch_trace d tk s) =
      started_event tk # concat (map (try_events tk) (tries_of (dispatch_trace d tk s))) @
        [last (events_of (dispatch_trace d tk s))]
    \<and> kind (hd (events_of (dispatch_trace d tk s))) = task_started
    \<and> is_terminal (last (events_of (dispatch_trace d tk s)))
    \<and> length (filter is_terminal (events_of (dispatch_trace d tk s))) = 1
    \<and> calls_answered (events_of (dispatch_trace d tk s)) =
        (\<forall>t\<in>set (tries_of (dispatch_trace d tk s)). \<not> isl (snd (snd t)))
    \<and> well_formed_history (events_of (dispatch_trace d tk s)) =
        (\<forall>t\<in>set (tries_of (dispatch_trace d tk s)). \<not> isl (snd (snd t)))"
proof -
  let ?h = "events_of (dispatch_trace d tk s)"
  let ?ts = "tries_of (dispatch_trace d tk s)"
  have "\<exists>fin. ?h = started_event tk # concat (map (try_events tk) ?ts) @ [fin] \<and>
      (kind fin = task_completed \<or> kind fin = task_failed)"
    using assms
  proof (cases rule: dispatch_cases)
    case (completed u tr)
    then show ?thesis by (simp add: completed_event_def)
  next
    case (failed u tr)
    then show ?thesis by (simp add: failed_event_def)
  qed
  then obtain fin where h: "?h = started_event tk # concat (map (try_events tk) ?ts) @ [fin]"
    and fin: "kind fin = task_completed \<or> kind fin = task_failed"
    by blast
  have l: "last ?h = fin"
    by (subst h) simp
  have a: "kind (hd ?h) = task_started"
    by (subst h) (simp add: started_event_def)
  have b: "is_terminal (last ?h)"
    using fin by (simp add: l is_terminal_def)
  have c: "length (filter is_terminal ?h) = 1"
    using fin by (subst h) (simp add: no_terminal_try_events, simp add: is_terminal_def started_event_def)
  have "calls_answered ?h = calls_answered (concat (map (try_events tk) ?ts) @ [fin])"
    by (subst h) (simp add: calls_answered_skip started_event_def)
  also have "\<dots> = (\<forall>t\<in>set ?ts. \<not> isl (snd (snd t)))"
    using fin by (intro calls_answered_tries) auto
  finally have e: "calls_answered ?h = (\<forall>t\<in>set ?ts. \<not> isl (snd (snd t)))" .
  have n: "?h \<noteq> []"
    by (subst h) simp
  have f: "well_formed_history ?h = (\<forall>t\<in>set ?ts. \<not> isl (snd (snd t)))"
    using a b c e n by (simp add: well_formed_history_def)
  from h l a b c e f show ?thesis by simp
qed

theorem C2_event_history_witness:
  "sink_accepts codex_then_gemini
   \<and> \<not> isl (fst (dispatch codex_then_gemini (task_for None (Some [codex, gemini])) start))
   \<and> map kind (events_of (dispatch_trace codex_then_gemini (task_for None (Some [codex, gemini])) start)) =
       [task_started, executor_called, executor_responded, executor_called, executor_responded,
        executor_called, executor_responded, task_completed]
   \<and> well_formed_history
        (events_of (dispatch_trace codex_then_gemini (task_for None (Some [codex, gemini])) start))"
proof -
  let ?tk = "task_for None (Some [codex, gemini])"
  have acc: "sink_accepts codex_then_gemini"
    by (simp add: codex_then_gemini_def)
  have ps: "probes_settle codex_then_gemini (getExecutorOrder codex_then_gemini ?tk)"
    unfolding codex_then_gemini_def by (rule probes_settle_registry) simp
  obtain r s' where d: "dispatch codex_then_gemini ?tk start = (Inr r, s')"
    using dispatch_returns [OF acc ps, of start] by (auto simp: not_isl_fst_eq)
  have t: "\<forall>t\<in>set (tries_of (dispatch_trace codex_then_gemini ?tk start)). \<not> isl (snd (snd t))"
    by (simp add: codex_then_gemini_def run_defs)
  have k: "map kind (events_of (dispatch_trace codex_then_gemini ?tk start)) =
       [task_started, executor_called, executor_responded, executor_called, executor_responded,
        executor_called, executor_responded, task_completed]"
    by (simp add: codex_then_gemini_def run_defs)
  from C2_event_history [OF acc d] t
  have "well_formed_history (events_of (dispatch_trace codex_then_gemini ?tk start))"
    by blast
  with acc d k show ?thesis by simp
qed

lemma last_map_fst_take:
  assumes "gs \<noteq> []" "map fst gs = take (length gs) order" "length gs \<le> length order"
  shows "fst (last gs) = order ! (length gs - 1)"
proof -
  have "fst (last gs) = last (map fst gs)"
    using assms(1) by (simp add: last_map)
  also have "\<dots> = last (take (length gs) order)"
    by (simp add: assms(2))
  also have "\<dots> = order ! (length gs - 1)"
  proof -
    have n: "0 < length gs" using assms(1) by simp
    then have "take (length gs) order \<noteq> []" using assms(3) by auto
    then have "last (take (length gs) order) =
        take (length gs) order ! (length (take (length gs) order) - 1)"
      by (rule last_conv_nth)
    also have "\<dots> = order ! (length gs - 1)"
      using n assms(3) by (simp add: min_def)
    finally show ?thesis .
  qed
  finally show ?thesis .
qed

text \<open>
  C3, as stated, fails on the executor identifier: the dispatcher returns the result
  object of the successful \<^verbatim>\<open>execute\<close> call as it is and never writes to its
  \<^verbatim>\<open>executor\<close> field. An executor registered as codex whose results say
  \<^verbatim>\<open>executor: 'gemini'\<close> succeeds on its first try, as the first backend of the order;
  the attempt count is 1 and the returned result names gemini, not codex. The count
  fails too when the store refuses a write: over the store that refuses
  \<^verbatim>\<open>task_completed\<close>, with \<open>R = 2\<close>, the first backend succeeds on its first try,
  the refusal is caught as a failed try, and the dispatch returns 2 attempts, not 1.
\<close>

theorem C3_mislabelled_result_counterexample:
  "getExecutorOrder mislabelling_codex (task_for (Some codex) None) = [codex]
   \<and> tries_of (dispatch_trace mislabelling_codex (task_for (Some codex) None) start) =
       [(codex, 1, Inr (ok_result gemini))]
   \<and> success (ok_result gemini)
   \<and> attempts (projr (fst (dispatch mislabelling_codex (task_for (Some codex) None) start))) = 1
   \<and> executor (result (projr (fst (dispatch mislabelling_codex (task_for (Some codex) None) start))))
       = gemini
   \<and> getExecutorOrder completion_refused (task_for (Some codex) None) = [codex]
   \<and> retryAttempts (options completion_refused) = 2
   \<and> tries_of (dispatch_trace completion_refused (task_for (Some codex) None) start) =
       [(codex, 1, Inr (ok_result codex)), (codex, 2, Inr (ok_result codex))]
   \<and> success (ok_result codex)
   \<and> attempts (projr (fst (dispatch completion_refused (task_for (Some codex) None) start))) = 2"
proof -
  let ?tk = "task_for (Some codex) None"
  have "getExecutorOrder mislabelling_codex ?tk = [codex]"
    "getExecutorOrder completion_refused ?tk = [codex]"
    by (simp_all add: getExecutorOrder_def task_for_def)
  moreover have "tries_of (dispatch_trace mislabelling_codex ?tk start) =
       [(codex, 1, Inr (ok_result gemini))]"
    "attempts (projr (fst (dispatch mislabelling_codex ?tk start))) = 1"
    "executor (result (projr (fst (dispatch mislabelling_codex ?tk start)))) = gemini"
    by (simp_all add: mislabelling_codex_def run_defs)
  moreover have "retryAttempts (options completion_refused) = 2"
    by (simp add: completion_refused_def dispatcher_of_def)
  moreover have "tries_of (dispatch_trace completion_refused ?tk start) =
       [(codex, 1, Inr (ok_result codex)), (codex, 2, Inr (ok_result codex))]"
    by (simp add: completion_refused_def run_defs)
  moreover have "attempts (projr (fst (dispatch completion_refused ?tk start))) = 2"
    by (simp add: completion_refused_def run_defs)
  ultimately show ?thesis
    by (simp add: ok_result_def)
qed

text \<open>
  C3, amended: with a store that accepts its writes and a retry count \<open>R \<ge> 0\<close>, the
  attempt count of the result is the number of \<^verbatim>\<open>execute\<close> calls made. If no try
  succeeds, every backend of the order was reached and the count is \<open>R\<close> times the
  number of backends that were registered and available. If some try succeeds, it is the
  last one, try \<open>j\<close> of the backend at position \<open>k\<close> of the order (the last one
  reached); the count is \<open>R\<close> times the number of registered and available backends
  among positions \<open>1..k-1\<close>, plus \<open>j\<close>; and the returned result is the very result
  that this try of the \<open>k\<close>-th backend returned.
\<close>

theorem C3_attempt_count:
  assumes "sink_accepts d" and "0 \<le> retryAttempts (options d)"
    and "dispatch d tk s = (Inr r, s')"
  shows "attempts r = int (length (tries_of (dispatch_trace d tk s)))
    \<and> ((\<forall>t\<in>set (tries_of (dispatch_trace d tk s)). \<not> succeeded (snd (snd t))) \<longrightarrow>
          map fst (gates_of (dispatch_trace d tk s)) = getExecutorOrder d tk \<and>
          attempts r = retryAttempts (options d) *
            int (length (filter snd (gates_of (dispatch_trace d tk s)))))
    \<and> ((\<exists>t\<in>set (tries_of (dispatch_trace d tk s)). succeeded (snd (snd t))) \<longrightarrow>
          (\<exists>k j. k = length (gates_of (dispatch_trace d tk s)) \<and>
             1 \<le> k \<and> k \<le> length (getExecutorOrder d tk) \<and>
             map fst (gates_of (dispatch_trace d tk s)) = take k (getExecutorOrder d tk) \<and>
             snd (last (gates_of (dispatch_trace d tk s))) \<and>
             last (tries_of (dispatch_trace d tk s)) = (getExecutorOrder d tk ! (k - 1), j, Inr (result r)) \<and>
             success (result r) \<and>
             (\<forall>t\<in>set (butlast (tries_of (dispatch_trace d tk s))). \<not> succeeded (snd (snd t))) \<and>
             1 \<le> j \<and> j \<le> retryAttempts (options d) \<and>
             attempts r = retryAttempts (options d) *
               int (length (filter snd (take (k - 1) (gates_of (dispatch_trace d tk s))))) + j))"
  using assms(1,3)
proof (cases rule: dispatch_cases)
  case (completed u tr)
  let ?T = "dispatch_trace d tk s"
  let ?k = "length (gates_of tr)"
  have g: "gates_of ?T = gates_of tr" and t: "tries_of ?T = tries_of tr"
    by (simp_all add: completed(3))
  from completed(10) obtain j where j:
    "last (tries_of tr) = (fst (last (gates_of tr)), j, Inr (result r))"
    "1 \<le> j" "j \<le> retryAttempts (options d)"
    "attempts r = retryAttempts (options d) * int (length (filter snd (butlast (gates_of tr)))) + j"
    using assms(2) by (auto simp: max_def)
  have fl: "fst (last (gates_of tr)) = getExecutorOrder d tk ! (?k - 1)"
    using completed(5,7,6) by (rule last_map_fst_take)
  have bl: "butlast (gates_of tr) = take (?k - 1) (gates_of tr)"
    by (simp add: butlast_conv_take)
  have k1: "1 \<le> ?k"
    using completed(5) by (cases "gates_of tr") simp_all
  have some: "\<exists>t\<in>set (tries_of tr). succeeded (snd (snd t))"
    using j(1) completed(9) completed(1) last_in_set [of "tries_of tr"]
    by (force simp: succeeded_def)
  have second: "\<exists>k j. k = length (gates_of tr) \<and>
             1 \<le> k \<and> k \<le> length (getExecutorOrder d tk) \<and>
             map fst (gates_of tr) = take k (getExecutorOrder d tk) \<and>
             snd (last (gates_of tr)) \<and>
             last (tries_of tr) = (getExecutorOrder d tk ! (k - 1), j, Inr (result r)) \<and>
             success (result r) \<and>
             (\<forall>t\<in>set (butlast (tries_of tr)). \<not> succeeded (snd (snd t))) \<and>
             1 \<le> j \<and> j \<le> retryAttempts (options d) \<and>
             attempts r = retryAttempts (options d) *
               int (length (filter snd (take (k - 1) (gates_of tr)))) + j"
    using completed(1,6,7,8,11) j k1
    by (intro exI [of _ ?k] exI [of _ j]) (simp add: fl bl)
  have first: "(\<forall>t\<in>set (tries_of tr). \<not> succeeded (snd (snd t))) \<longrightarrow>
          map fst (gates_of tr) = getExecutorOrder d tk \<and>
          attempts r = retryAttempts (options d) * int (length (filter snd (gates_of tr)))"
    using some by blast
  have third: "(\<exists>t\<in>set (tries_of tr). succeeded (snd (snd t))) \<longrightarrow>
          (\<exists>k j. k = length (gates_of tr) \<and>
             1 \<le> k \<and> k \<le> length (getExecutorOrder d tk) \<and>
             map fst (gates_of tr) = take k (getExecutorOrder d tk) \<and>
             snd (last (gates_of tr)) \<and>
             last (tries_of tr) = (getExecutorOrder d tk ! (k - 1), j, Inr (result r)) \<and>
             success (result r) \<and>
             (\<forall>t\<in>set (butlast (tries_of tr)). \<not> succeeded (snd (snd t))) \<and>
             1 \<le> j \<and> j \<le> retryAttempts (options d) \<and>
             attempts r = retryAttempts (options d) *
               int (length (filter snd (take (k - 1) (gates_of tr)))) + j)"
    using second by (rule impI)
  from completed(12) first third show ?thesis
    unfolding g t by (intro conjI)
next
  case (failed u tr)
  let ?T = "dispatch_trace d tk s"
  have g: "gates_of ?T = gates_of tr" and t: "tries_of ?T = tries_of tr"
    by (simp_all add: failed(4))
  have "attempts r = retryAttempts (options d) * int (length (filter snd (gates_of tr)))"
    using failed(8,9) assms(2) by simp
  with failed(6,7,9) show ?thesis
    by (simp add: g t)
qed


theorem C3_attempt_count_witness:
  "sink_accepts codex_then_gemini \<and> 0 \<le> retryAttempts (options codex_then_gemini)
   \<and> \<not> isl (fst (dispatch codex_then_gemini (task_for None (Some [codex, gemini])) start))
   \<and> retryAttempts (options codex_then_gemini) = 2
   \<and> getExecutorOrder codex_then_gemini (task_for None (Some [codex, gemini])) = [codex, gemini]
   \<and> gates_of (dispatch_trace codex_then_gemini (task_for None (Some [codex, gemini])) start) =
       [(codex, True), (gemini, True)]
   \<and> tries_of (dispatch_trace codex_then_gemini (task_for None (Some [codex, gemini])) start) =
       [(codex, 1, Inr (failed_result codex ''rate limit'')),
        (codex, 2, Inr (failed_result codex ''rate limit'')),
        (gemini, 1, Inr (ok_result gemini))]
   \<and> attempts (projr (fst (dispatch codex_then_gemini (task_for None (Some [codex, gemini])) start))) = 3
   \<and> result (projr (fst (dispatch codex_then_gemini (task_for None (Some [codex, gemini])) start)))
       = ok_result gemini"
proof -
  let ?tk = "task_for None (Some [codex, gemini])"
  let ?T = "dispatch_trace codex_then_gemini ?tk start"
  have acc: "sink_accepts codex_then_gemini"
    by (simp add: codex_then_gemini_def)
  have R: "retryAttempts (options codex_then_gemini) = 2"
    by (simp add: codex_then_gemini_def dispatcher_of_def)
  then have R0: "0 \<le> retryAttempts (options codex_then_gemini)"
    by simp
  have o: "getExecutorOrder codex_then_gemini ?tk = [codex, gemini]"
    by (simp add: getExecutorOrder_def task_for_def)
  have ps: "probes_settle codex_then_gemini (getExecutorOrder codex_then_gemini ?tk)"
    unfolding codex_then_gemini_def by (rule probes_settle_registry) simp
  obtain r s' where d: "dispatch codex_then_gemini ?tk start = (Inr r, s')"
    using dispatch_returns [OF acc ps, of start] by (auto simp: not_isl_fst_eq)
  have g: "gates_of ?T = [(codex, True), (gemini, True)]"
    by (simp add: codex_then_gemini_def run_defs)
  have t: "tries_of ?T =
       [(codex, 1, Inr (failed_result codex ''rate limit'')),
        (codex, 2, Inr (failed_result codex ''rate limit'')),
        (gemini, 1, Inr (ok_result gemini))]"
    by (simp add: codex_then_gemini_def run_defs)
  have s: "\<exists>t\<in>set (tries_of ?T). succeeded (snd (snd t))"
    by (simp add: t succeeded_def ok_result_def)
  note c3 = C3_attempt_count [OF acc R0 d]
  from c3 have n: "attempts r = 3"
    by (simp add: t)
  from c3 s have "\<exists>j. last (tries_of ?T) =
      (getExecutorOrder codex_then_gemini ?tk ! (length (gates_of ?T) - 1), j, Inr (result r))"
    by blast
  then have e: "result r = ok_result gemini"
    by (simp add: t)
  from acc R0 d R o g t n e show ?thesis by simp
qed








lemma journal_follows_refl [simp]: "journal_follows j s s"
  by (simp add: journal_follows_def)















section \<open>Properties of dispatchAll\<close>

lemma run_and_then:
  "run (and_then p f) s =
     (case run p s of (Inl err, s') \<Rightarrow> (Inl err, s') | (Inr a, s') \<Rightarrow> run (f a) s')"
  by (induction p arbitrary: s) simp_all

lemma run_perform: "run (perform g) s = (Inr (fst (g s)), snd (g s))"
  by (simp add: perform_def)

lemma run_try_once_async:
  "run (try_once_async d ty ex tk attempt n) s = (Inr (fst (try_once d ty ex tk attempt n s)),
     snd (try_once d ty ex tk attempt n s))"
  by (simp add: try_once_async_def try_once_def run_and_then run_perform
      split: prod.splits sum.splits)

lemma run_retry_loop_async:
  "run (retry_loop_async d ty ex attempt tk n le) s = retry_loop d ty ex attempt tk n le s"
proof (induction attempt tk n le s rule: retry_loop_induct [where d = d and ty = ty and ex = ex])
  case (finished attempt tk n le s)
  then show ?case
    by (simp add: retry_loop_done retry_loop_async.simps [of d ty ex attempt])
next
  case (next_try attempt tk n le s)
  obtain y s1 where l: "log_event d (called_event tk ty attempt) s = (y, s1)" by force
  show ?case
  proof (cases y)
    case (Inl err)
    with l next_try.hyps show ?thesis
      by (simp add: retry_loop_step [OF next_try.hyps, of ty ex tk n le s]
            retry_loop_async.simps [of d ty ex attempt tk n le]
          run_and_then run_perform)
  next
    case (Inr eid)
    obtain outc s2 where t: "try_once d ty ex tk attempt (n + 1) s1 = (outc, s2)" by force
    show ?thesis
    proof (cases outc)
      case (Won r)
      with l Inr t next_try.hyps show ?thesis
        by (simp add: retry_loop_step [OF next_try.hyps, of ty ex tk n le s]
            retry_loop_async.simps [of d ty ex attempt tk n le]
            run_and_then run_perform run_try_once_async)
    next
      case (Lost le' tk')
      define s3 where "s3 = (if attempt < retryAttempts (options d)
        then delay d (retryDelayMs (options d) * attempt) s2 else s2)"
      note ih = next_try.IH [OF l [unfolded Inr] t [unfolded Lost], folded s3_def]
      have a: "retry_loop d ty ex attempt tk n le s =
          retry_loop d ty ex (attempt + 1) tk' (n + 1) le' s3"
        using l Inr t Lost
        by (simp add: retry_loop_step [OF next_try.hyps, of ty ex tk n le s] s3_def)
      have b: "run (retry_loop_async d ty ex attempt tk n le) s =
          run (retry_loop_async d ty ex (attempt + 1) tk' (n + 1) le') s3"
        using l Inr t Lost next_try.hyps
        by (simp add: retry_loop_async.simps [of d ty ex attempt tk n le]
            run_and_then run_perform run_try_once_async s3_def)
      show ?thesis
        unfolding a b by (rule ih)
    qed
  qed
qed

lemma run_executor_loop_async:
  "run (executor_loop_async d order tk n le) s = executor_loop d order tk n le s"
proof (induction order arbitrary: tk n le s)
  case Nil
  show ?case by simp
next
  case (Cons ty rest)
  show ?case
    by (simp add: Cons.IH run_and_then run_perform run_retry_loop_async
        split: option.splits prod.splits sum.splits LoopExit.splits)
qed

lemma run_dispatch_async: "run (dispatch_async d tk) s = dispatch d tk s"
  by (simp add: dispatch_async_def dispatch_def run_and_then run_perform run_executor_loop_async
      split: prod.splits sum.splits LoopExit.splits)

inductive_cases becomes_DoneE: "becomes (Done a) q"
inductive_cases becomes_RejectedE: "becomes (Rejected err) q"
inductive_cases becomes_StepE: "becomes (Step g k) q"



lemma settles_with_Done [simp]: "settles_with (Done a) Q E = Q a"
  by (auto simp: settles_with_def elim: becomes_DoneE intro: becomes.intros)

lemma settles_with_Rejected [simp]: "settles_with (Rejected err) Q E = E err"
  by (auto simp: settles_with_def elim: becomes_RejectedE intro: becomes.intros)

lemma settles_with_Step [simp]: "settles_with (Step g k) Q E = (\<forall>s. settles_with (k s) Q E)"
  by (auto simp: settles_with_def elim: becomes_StepE intro: becomes.intros)

lemma settles_with_perform [simp]: "settles_with (perform g) Q E = (\<forall>s. Q (fst (g s)))"
  by (simp add: perform_def)
















lemma state_before_0 [simp]: "state_before d tasks 0 s = s"
  by (simp add: state_before_def)

lemma state_before_Cons [simp]:
  "state_before d (tk # rest) (Suc i) s = state_before d rest i (snd (dispatch d tk s))"
  by (simp add: state_before_def)














end
